theory Spec2Isabelle
  imports Main "HOL-Library.Sublist"
begin

section \<open>Strings and the rate-limit classification\<close>

text \<open>
  Python strings are modelled as \<open>string\<close>; a character stands for a code point below 256.
  \<open>lower_char\<close> is \<open>str.lower\<close> on such a code point: the ASCII capitals and the Latin-1
  capitals (\<open>0xC0\<close> to \<open>0xDE\<close>, the multiplication sign \<open>0xD7\<close> apart) move up by 32.
  The operator \<open>in\<close> on two strings is \<open>sublist\<close> (a contiguous part).
\<close>

definition lower_char :: "char \<Rightarrow> char" where
  "lower_char c =
     (let n = (of_char c :: nat)
      in if (65 \<le> n \<and> n \<le> 90) \<or> (192 \<le> n \<and> n \<le> 222 \<and> n \<noteq> 215)
         then char_of (n + 32) else c)"

definition lower :: "string \<Rightarrow> string" where
  "lower s = map lower_char s"

text \<open>Lines 207 to 214 of \<open>core/review_executor.py\<close>, applied to \<open>str(e)\<close>.\<close>

definition is_rate_limit :: "string \<Rightarrow> bool" where
  "is_rate_limit msg =
     (let error_str = lower msg
      in sublist ''429'' error_str
         \<or> sublist ''rate limit'' error_str
         \<or> sublist ''ratelimiterror'' error_str
         \<or> sublist ''throttling'' error_str
         \<or> sublist ''too many tokens'' error_str)"

text \<open>The markers as the specification lists them.\<close>

definition rate_limit_markers :: "string list" where
  "rate_limit_markers =
     [''429'', ''rate limit'', ''ratelimiterror'', ''throttling'', ''too many tokens'']"

section \<open>Data of one review job\<close>

text \<open>
  An exception is its class, as far as the \<open>except\<close> clauses of the repository tell
  classes apart, and its message \<open>str(e)\<close>. \<open>asyncio.CancelledError\<close> is not an
  \<open>Exception\<close> and is kept apart (\<open>CancelledError\<close> below).
\<close>

datatype exn_class = FileNotFoundError | RuntimeError | OtherException

datatype exn = Exn (exn_class: exn_class) (exn_msg: string)

datatype severity = Low | Medium | High | Critical

text \<open>
  \<open>ReviewResult\<close> is declared outside the files at hand; the orchestration reads only
  \<open>summary\<close>, \<open>severity\<close> and \<open>issues\<close> and passes the value on.
\<close>

record review_result =
  summary :: string
  severity :: severity
  issues :: "string list"

text \<open>A tool's argument payload: a string, or a structured value (a dict, as pairs).\<close>

datatype arg_value = ArgStr string | ArgObj "(string \<times> string) list"

text \<open>Calls made on the job's \<open>DebugWriter\<close>, in order.\<close>

datatype audit_entry =
    XmlContext string nat nat
  | UserPrompt string
  | ToolCall string arg_value "string option"
  | ToolOutput string "string option" "string option" "string option"
  | AgentResponse review_result
  | ErrorEntry string exn_class

text \<open>
  The events of \<open>pydantic_ai.messages\<close> that \<open>event_stream_handler\<close> tells apart, with the
  attributes it reads: a part's \<open>tool_name\<close>, \<open>call_id\<close> and \<open>arguments\<close> (absent ones are
  \<open>None\<close>), whether a delta is a \<open>TextPartDelta\<close>, a tool call's name and \<open>tool_call_id\<close>,
  a tool result's \<open>tool_call_id\<close>, \<open>content\<close> and \<open>error\<close>.
\<close>

datatype event =
    PartStartEvent "string option" "string option" "arg_value option"
  | PartDeltaEvent bool
  | FunctionToolCallEvent string "string option"
  | FunctionToolResultEvent string "string option" "string option"
  | FinalResultEvent
  | OtherEvent

text \<open>Operations on the background spinner tasks; a task is named by its attempt.\<close>

datatype task_op = CreateTask nat | CancelTask nat | AwaitTask nat

datatype registry_op = Register string | Unregister string

text \<open>
  The state one job reads and writes: the shared registry \<open>councilor._debug_writers\<close>
  (file path to the writer, named by its review id), the closure variables of the event
  handler (\<open>last_status\<close>, \<open>tool_calls_tracked\<close>), the spinner's attributes, the local
  \<open>spinner_task\<close>, and logs of the effects: writes on the debug writer, \<open>show_status\<close>
  calls of the event handler and of the driver, sleeps, task operations, registry
  operations, agent invocations, events handled and calls of \<open>cache_review\<close>.
\<close>

record job_state =
  debug_writers :: "string \<rightharpoonup> string option"
  registry_log :: "registry_op list"
  debug_enabled :: bool
  audit :: "audit_entry list"
  last_status :: string
  tool_calls_tracked :: "string \<rightharpoonup> string"
  router_shown :: "string list"
  driver_shown :: "string list"
  events_handled :: nat
  spinner_enabled :: bool
  spinner_active :: bool
  spinner_task :: "nat option"
  task_log :: "task_op list"
  sleeps :: "int list"
  agent_calls :: nat
  cache_puts :: "(string \<times> review_result \<times> string) list"

definition init_state :: "bool \<Rightarrow> bool \<Rightarrow> job_state" where
  "init_state spin dbg =
     \<lparr>debug_writers = Map.empty, registry_log = [], debug_enabled = dbg, audit = [],
      last_status = '''', tool_calls_tracked = Map.empty, router_shown = [],
      driver_shown = [], events_handled = 0, spinner_enabled = spin,
      spinner_active = False, spinner_task = None, task_log = [], sleeps = [],
      agent_calls = 0, cache_puts = []\<rparr>"

section \<open>The streaming event handler (\<open>ui/streaming.py\<close>)\<close>

text \<open>Truthiness of an argument payload, and \<open>arguments or {}\<close>.\<close>

definition truthy_arg :: "arg_value option \<Rightarrow> bool" where
  "truthy_arg a =
     (case a of None \<Rightarrow> False | Some (ArgStr s) \<Rightarrow> s \<noteq> [] | Some (ArgObj d) \<Rightarrow> d \<noteq> [])"

text \<open>
  Lines 60 to 69: a string payload is parsed by \<open>json.loads\<close> (a parameter: \<open>None\<close> when
  it raises), and kept as it is when parsing fails.
\<close>

definition parse_arguments :: "(string \<Rightarrow> arg_value option) \<Rightarrow> arg_value option \<Rightarrow> arg_value" where
  "parse_arguments json_loads a =
     (if truthy_arg a then
        (case a of
           Some (ArgStr s) \<Rightarrow> (case json_loads s of Some v \<Rightarrow> (if truthy_arg (Some v) then v else ArgObj []) | None \<Rightarrow> ArgStr s)
         | Some (ArgObj d) \<Rightarrow> ArgObj d
         | None \<Rightarrow> ArgObj [])
      else ArgObj [])"

text \<open>Lines 72 to 74 (and 80 to 82, 91 to 93, 112 to 114).\<close>

definition emit_status :: "string \<Rightarrow> job_state \<Rightarrow> job_state" where
  "emit_status new_status s =
     (if new_status \<noteq> last_status s
      then s\<lparr>router_shown := router_shown s @ [new_status], last_status := new_status\<rparr>
      else s)"

definition write_entry :: "audit_entry \<Rightarrow> job_state \<Rightarrow> job_state" where
  "write_entry e s = s\<lparr>audit := audit s @ [e]\<rparr>"

text \<open>One turn of the loop of \<open>event_stream_handler\<close> (lines 50 to 114).\<close>

fun handle_event :: "(string \<Rightarrow> arg_value option) \<Rightarrow> event \<Rightarrow> job_state \<Rightarrow> job_state" where
  "handle_event jl (PartStartEvent (Some tool_name) call_id arguments) s =
     emit_status (''Calling tool: '' @ tool_name @ ''...'')
       (write_entry (ToolCall tool_name (parse_arguments jl arguments) call_id) s)"
| "handle_event jl (PartStartEvent None call_id arguments) s =
     emit_status ''Generating review...'' s"
| "handle_event jl (PartDeltaEvent is_text) s =
     (if is_text \<and> \<not> spinner_active s then emit_status ''Writing review...'' s else s)"
| "handle_event jl (FunctionToolCallEvent tool_name tool_call_id) s =
     emit_status (''Executing: '' @ tool_name @ ''...'')
       (case tool_call_id of
          None \<Rightarrow> s
        | Some cid \<Rightarrow>
            if cid \<noteq> [] then s\<lparr>tool_calls_tracked := (tool_calls_tracked s)(cid \<mapsto> tool_name)\<rparr>
            else s)"
| "handle_event jl (FunctionToolResultEvent tool_call_id result_content error) s =
     write_entry
       (ToolOutput
          (case tool_calls_tracked s tool_call_id of Some n \<Rightarrow> n | None \<Rightarrow> ''unknown_tool'')
          result_content (Some tool_call_id) error) s"
| "handle_event jl FinalResultEvent s = emit_status ''Finalizing review...'' s"
| "handle_event jl OtherEvent s = s"

definition handle_counted :: "(string \<Rightarrow> arg_value option) \<Rightarrow> event \<Rightarrow> job_state \<Rightarrow> job_state" where
  "handle_counted jl e s = (handle_event jl e s)\<lparr>events_handled := Suc (events_handled s)\<rparr>"

definition event_stream_handler ::
  "(string \<Rightarrow> arg_value option) \<Rightarrow> event list \<Rightarrow> job_state \<Rightarrow> job_state" where
  "event_stream_handler jl event_stream s = fold (handle_counted jl) event_stream s"

section \<open>Running the agent with retries (\<open>core/review_executor.py\<close>)\<close>

text \<open>
  The agent is outside the repository. What one attempt meets is given from outside: the
  items that arrive while the run streams, in order (an event for the handler, or a partial
  result with its truthiness), and how the \<open>try\<close> block ends: with the structured result
  (and the \<open>write_tool_output\<close> calls that lines 99 to 179 derive from the run's message
  history), with an \<open>Exception\<close>, or with \<open>asyncio.CancelledError\<close>.
\<close>

datatype stream_item = Ev event | PartialResult bool

datatype ending =
    Returns review_result "audit_entry list"
  | Raises exn
  | CancelledError

record attempt =
  items :: "stream_item list"
  ending :: ending

text \<open>
  How \<open>run_agent_review\<close> ends: it returns, it raises the attempt's exception, it lets the
  cancellation through, or it reaches the \<open>RuntimeError\<close> after the loop (line 242).
\<close>

datatype loop_exit = Returned review_result | Raised exn | Cancelled | FellThrough

datatype step = Continue | Exit loop_exit

text \<open>
  A spinner task is live from \<open>asyncio.create_task\<close> until it has been awaited:
  \<open>Spinner.run\<close> loops while the spinner is active and swallows the cancellation, so
  \<open>task.done()\<close> holds once \<open>wait_for\<close> has returned. \<open>Spinner.run\<close> sets \<open>active\<close>.
\<close>

definition create_task :: "nat \<Rightarrow> job_state \<Rightarrow> job_state" where
  "create_task t s =
     s\<lparr>spinner_task := Some t, task_log := task_log s @ [CreateTask t], spinner_active := True\<rparr>"

definition task_done :: "job_state \<Rightarrow> nat \<Rightarrow> bool" where
  "task_done s t = (AwaitTask t \<in> set (task_log s))"

definition cancel_task :: "nat \<Rightarrow> job_state \<Rightarrow> job_state" where
  "cancel_task t s = s\<lparr>task_log := task_log s @ [CancelTask t]\<rparr>"

definition await_task :: "nat \<Rightarrow> job_state \<Rightarrow> job_state" where
  "await_task t s = s\<lparr>task_log := task_log s @ [AwaitTask t]\<rparr>"

definition spinner_stop :: "job_state \<Rightarrow> job_state" where
  "spinner_stop s = s\<lparr>spinner_active := False\<rparr>"

text \<open>\<open>cleanup_spinner_task\<close> (\<open>ui/streaming.py\<close>, lines 119 to 125).\<close>

definition cleanup_spinner_task :: "nat option \<Rightarrow> job_state \<Rightarrow> job_state" where
  "cleanup_spinner_task task s =
     (let s1 = spinner_stop s
      in case task of
           None \<Rightarrow> s1
         | Some t \<Rightarrow> if \<not> task_done s1 t then await_task t (cancel_task t s1) else s1)"

text \<open>Lines 88 to 94: the first truthy partial result.\<close>

definition on_first_result :: "job_state \<Rightarrow> job_state" where
  "on_first_result s =
     (let s1 = (case spinner_task s of
                  None \<Rightarrow> s
                | Some t \<Rightarrow>
                    if \<not> task_done s t then (cancel_task t s)\<lparr>spinner_task := None\<rparr> else s);
          s2 = spinner_stop s1
      in if spinner_enabled s2
         then s2\<lparr>driver_shown := driver_shown s2 @ [''Receiving review results...'']\<rparr>
         else s2)"

text \<open>
  One item of the stream: the handler takes an event; lines 85 to 94 take a partial
  result. The flag is \<open>results_received\<close>.
\<close>

fun stream_step ::
  "(string \<Rightarrow> arg_value option) \<Rightarrow> stream_item \<Rightarrow> bool \<times> job_state \<Rightarrow> bool \<times> job_state" where
  "stream_step jl (Ev e) (rr, s) = (rr, handle_counted jl e s)"
| "stream_step jl (PartialResult truthy) (rr, s) =
     (if truthy \<and> \<not> rr then (True, on_first_result s) else (rr, s))"

definition register :: "string \<Rightarrow> string option \<Rightarrow> job_state \<Rightarrow> job_state" where
  "register file_path review_id s =
     s\<lparr>debug_writers := (debug_writers s)(file_path \<mapsto> review_id),
       registry_log := registry_log s @ [Register file_path]\<rparr>"

text \<open>\<open>councilor._debug_writers.pop(deps.file_path, None)\<close>.\<close>

definition unregister :: "string \<Rightarrow> job_state \<Rightarrow> job_state" where
  "unregister file_path s =
     s\<lparr>debug_writers := (debug_writers s)(file_path := None),
       registry_log := registry_log s @ [Unregister file_path]\<rparr>"

definition base_delay :: int where
  "base_delay = 5"

text \<open>
  The body of the loop (lines 70 to 239) for attempt number \<open>a\<close>. Each branch ends with the
  \<open>finally\<close> clause. The progress line of \<open>click.echo\<close>, the clock and the metrics collector
  are left out: nothing else reads them.
\<close>

definition attempt_body ::
  "(string \<Rightarrow> arg_value option) \<Rightarrow> attempt \<Rightarrow> string \<Rightarrow> nat \<Rightarrow> nat \<Rightarrow> job_state \<Rightarrow> step \<times> job_state" where
  "attempt_body jl att file_path max_retries a s0 =
     (let s1 = s0\<lparr>spinner_task := None\<rparr>;
          s2 = (if spinner_enabled s1 then create_task a s1 else s1);
          s3 = s2\<lparr>agent_calls := Suc (agent_calls s2)\<rparr>;
          s4 = snd (fold (stream_step jl) (items att) (False, s3))
      in case ending att of
           Returns review_result history \<Rightarrow>
             (let s5 = s4\<lparr>audit := audit s4 @ history\<rparr>;
                  s6 = write_entry (AgentResponse review_result) s5;
                  s7 = unregister file_path s6
              in (Exit (Returned review_result), cleanup_spinner_task (spinner_task s7) s7))
         | CancelledError \<Rightarrow>
             (Exit Cancelled, cleanup_spinner_task (spinner_task s4) s4)
         | Raises e \<Rightarrow>
             (let s5 = cleanup_spinner_task (spinner_task s4) s4
              in if is_rate_limit (exn_msg e) \<and> int a < int max_retries - 1
                 then (let delay = base_delay * 2 ^ a;
                           s6 = s5\<lparr>sleeps := sleeps s5 @ [delay]\<rparr>
                       in (Continue, cleanup_spinner_task (spinner_task s6) s6))
                 else (let s6 = write_entry (ErrorEntry (exn_msg e) (exn_class e)) s5;
                           s7 = unregister file_path s6
                       in (Exit (Raised e), cleanup_spinner_task (spinner_task s7) s7))))"

text \<open>\<open>for attempt in range(max_retries)\<close>, from attempt \<open>a\<close> on, and line 242 after it.\<close>

function retry_loop ::
  "(string \<Rightarrow> arg_value option) \<Rightarrow> (nat \<Rightarrow> attempt) \<Rightarrow> string \<Rightarrow> nat \<Rightarrow> nat \<Rightarrow> job_state
     \<Rightarrow> loop_exit \<times> job_state" where
  "retry_loop jl agent file_path max_retries a s =
     (if a < max_retries
      then (case attempt_body jl (agent a) file_path max_retries a s of
              (Continue, s') \<Rightarrow> retry_loop jl agent file_path max_retries (Suc a) s'
            | (Exit x, s') \<Rightarrow> (x, s'))
      else (FellThrough, s))"
  by pat_completeness auto
termination
  by (relation "measure (\<lambda>(jl, agent, file_path, max_retries, a, s). max_retries - a)") auto

definition max_retries :: nat where
  "max_retries = 3"

text \<open>
  Lines 36 to 63 of \<open>run_agent_review\<close>: the context and the prompt are written, the
  writer is stored under \<open>deps.file_path\<close>, and the handler is created (its closure
  variables start empty). \<open>extracted_code\<close> is \<open>extract_code_from_xml(packed_xml)\<close>.
\<close>

definition review_prelude :: "string \<Rightarrow> string \<Rightarrow> string \<Rightarrow> string option \<Rightarrow> job_state \<Rightarrow> job_state" where
  "review_prelude packed_xml extracted_code file_path review_id s =
     (let s1 = (if debug_enabled s
                then write_entry (XmlContext extracted_code (length extracted_code) (length packed_xml)) s
                else s);
          user_prompt = ''Please review the following code:'' @ [CHR 0x0A, CHR 0x0A] @ extracted_code;
          s2 = write_entry (UserPrompt user_prompt) s1;
          s3 = register file_path review_id s2
      in s3\<lparr>last_status := [], tool_calls_tracked := Map.empty\<rparr>)"

text \<open>\<open>run_agent_review\<close>: the lines before the loop, then the loop.\<close>

definition run_agent_review ::
  "(string \<Rightarrow> arg_value option) \<Rightarrow> (nat \<Rightarrow> attempt) \<Rightarrow> string \<Rightarrow> string \<Rightarrow> string
     \<Rightarrow> string option \<Rightarrow> job_state \<Rightarrow> loop_exit \<times> job_state" where
  "run_agent_review jl agent packed_xml extracted_code file_path review_id s =
     retry_loop jl agent file_path max_retries 0
       (review_prelude packed_xml extracted_code file_path review_id s)"

text \<open>
  The specification's wording of the classification: a lowercase rendering of the message
  contains one of the markers.
\<close>

definition spec_transient :: "exn \<Rightarrow> bool" where
  "spec_transient e = (\<exists>m \<in> set rate_limit_markers. sublist m (lower (exn_msg e)))"

section \<open>One file (\<open>_review_single_file\<close> in \<open>commands/review.py\<close>)\<close>

text \<open>
  The command's options and settings that the job reads: \<open>--no-cache\<close>,
  \<open>settings.enable_cache\<close>, the environment variable \<open>COUNCIL_MODEL\<close> and
  \<open>settings.max_concurrent_reviews\<close>.
\<close>

record options =
  no_cache :: bool
  enable_cache :: bool
  council_model :: "string option"
  max_concurrent_reviews :: int

text \<open>
  What one job meets: its file, an exception of lines 207 to 210 (outside the \<open>try\<close>) if
  there is one, the outcome of the context extraction, the answer of
  \<open>get_cached_review\<close> if it is asked (\<open>None\<close>: a miss or empty data; otherwise the
  result that \<open>ReviewResult(**cached_data)\<close> rebuilds), the agent's attempts, the code
  that \<open>extract_code_from_xml\<close> finds, and \<open>json.loads\<close>.
\<close>

record job_env =
  file_path :: string
  review_id :: string
  prologue :: "exn option"
  packed_context :: "exn + string"
  cached_data :: "review_result option"
  attempts :: "nat \<Rightarrow> attempt"
  extracted :: string
  json_loads :: "string \<Rightarrow> arg_value option"

text \<open>
  How the coroutine of one job ends: it returns a pair or \<open>None\<close>, an \<open>Exception\<close>
  escapes it, it is cancelled, or \<open>sys.exit\<close> raises \<open>SystemExit\<close>.
\<close>

datatype job_result =
    JobReturned "(string \<times> review_result) option"
  | JobRaised exn
  | JobCancelled
  | JobExit int

text \<open>\<open>os.getenv("COUNCIL_MODEL") or "unknown"\<close>.\<close>

definition model_name :: "options \<Rightarrow> string" where
  "model_name opts =
     (case council_model opts of
        None \<Rightarrow> ''unknown''
      | Some m \<Rightarrow> if m \<noteq> [] then m else ''unknown'')"

text \<open>Line 333, on the message of a \<open>RuntimeError\<close>.\<close>

definition is_api_key_error :: "string \<Rightarrow> bool" where
  "is_api_key_error error_msg =
     (sublist ''No API keys configured'' error_msg \<or> sublist ''API key'' (lower error_msg))"

text \<open>
  The \<open>except\<close> clauses (lines 324 to 396), in their order. The clause for
  \<open>ValueError\<close>, \<open>TypeError\<close> and \<open>KeyError\<close> comes after the one for \<open>Exception\<close> and
  never runs.
\<close>

definition handle_exception :: "exn \<Rightarrow> job_result" where
  "handle_exception e =
     (case exn_class e of
        FileNotFoundError \<Rightarrow> JobReturned None
      | RuntimeError \<Rightarrow> if is_api_key_error (exn_msg e) then JobExit 1 else JobReturned None
      | OtherException \<Rightarrow> JobReturned None)"

definition cache_review :: "string \<Rightarrow> review_result \<Rightarrow> string \<Rightarrow> job_state \<Rightarrow> job_state" where
  "cache_review path r model s = s\<lparr>cache_puts := cache_puts s @ [(path, r, model)]\<rparr>"

text \<open>
  The body under the semaphore (lines 206 to 396). Progress lines, metrics and the review
  history are left out (a failure to save the history is swallowed at line 318).
\<close>

definition review_single_file :: "options \<Rightarrow> job_env \<Rightarrow> job_state \<Rightarrow> job_result \<times> job_state" where
  "review_single_file opts env s =
     (case prologue env of
        Some e \<Rightarrow> (JobRaised e, s)
      | None \<Rightarrow>
          (case packed_context env of
             Inl e \<Rightarrow> (handle_exception e, s)
           | Inr packed_xml \<Rightarrow>
               (let cached_result =
                      (if \<not> no_cache opts \<and> enable_cache opts then cached_data env else None)
                in case cached_result of
                     Some review_result \<Rightarrow> (JobReturned (Some (file_path env, review_result)), s)
                   | None \<Rightarrow>
                       (case run_agent_review (json_loads env) (attempts env) packed_xml
                               (extracted env) (file_path env) (Some (review_id env)) s of
                          (Returned review_result, s') \<Rightarrow>
                            (JobReturned (Some (file_path env, review_result)),
                             if \<not> no_cache opts \<and> enable_cache opts
                             then cache_review (file_path env) review_result (model_name opts) s'
                             else s')
                        | (Raised e, s') \<Rightarrow> (handle_exception e, s')
                        | (Cancelled, s') \<Rightarrow> (JobCancelled, s')
                        | (FellThrough, s') \<Rightarrow>
                            (handle_exception
                               (Exn RuntimeError ''Failed to get review result after retries''), s')))))"

section \<open>The batch (\<open>_review\<close> in \<open>commands/review.py\<close>)\<close>

text \<open>Lines 404 to 409; \<open>n\<close> is \<open>len(files_to_review)\<close>.\<close>

definition concurrency_limit :: "nat \<Rightarrow> int \<Rightarrow> int" where
  "concurrency_limit n max_conc =
     (if n \<le> 5 then int n else min max_conc (max 3 (int n div 2)))"

text \<open>The formula of the specification, \<open>N / 2\<close> read as the integer quotient.\<close>

definition spec_limit :: "nat \<Rightarrow> int \<Rightarrow> int" where
  "spec_limit n max_conc =
     (if n \<le> 5 then int n else max 3 (min max_conc (int n div 2)))"

text \<open>
  The scheduler of \<open>asyncio\<close> is outside the repository. A schedule is the order in which
  jobs enter the body of \<open>async with semaphore\<close> and leave it; \<open>asyncio.gather\<close> keeps one
  slot per task, in the order of the tasks. The state is the semaphore's value, the jobs
  inside the body, and the slots.
\<close>

datatype sched_event = Acquire nat | Complete nat

record batch_state =
  sem_value :: nat
  in_flight :: "nat list"
  slots :: "job_result option list"

datatype batch_status = Running batch_state | Aborted int

definition init_batch :: "nat \<Rightarrow> nat \<Rightarrow> batch_state" where
  "init_batch k n = \<lparr>sem_value = k, in_flight = [], slots = replicate n None\<rparr>"

text \<open>
  One event; \<open>None\<close> when it cannot happen in this state. A job enters once, and only while
  the semaphore's value is positive. When a job leaves, the value goes up again; a
  \<open>SystemExit\<close> leaves the event loop, anything else fills the job's slot.
\<close>

fun sched_step :: "job_result list \<Rightarrow> sched_event \<Rightarrow> batch_state \<Rightarrow> batch_status option" where
  "sched_step jobs (Acquire i) b =
     (if i < length jobs \<and> i < length (slots b) \<and> slots b ! i = None
         \<and> i \<notin> set (in_flight b) \<and> 0 < sem_value b
      then Some (Running (b\<lparr>sem_value := sem_value b - 1, in_flight := i # in_flight b\<rparr>))
      else None)"
| "sched_step jobs (Complete i) b =
     (if i \<in> set (in_flight b)
      then (let b' = b\<lparr>sem_value := sem_value b + 1, in_flight := removeAll i (in_flight b)\<rparr>
            in case jobs ! i of
                 JobExit code \<Rightarrow> Some (Aborted code)
               | r \<Rightarrow> Some (Running (b'\<lparr>slots := (slots b')[i := Some r]\<rparr>)))
      else None)"

fun run_schedule :: "job_result list \<Rightarrow> sched_event list \<Rightarrow> batch_state \<Rightarrow> batch_status option" where
  "run_schedule jobs [] b = Some (Running b)"
| "run_schedule jobs (ev # evs) b =
     (case sched_step jobs ev b of
        None \<Rightarrow> None
      | Some (Aborted code) \<Rightarrow> Some (Aborted code)
      | Some (Running b') \<Rightarrow> run_schedule jobs evs b')"

text \<open>
  Lines 426 to 431 over the gathered results: an \<open>Exception\<close> is logged and skipped,
  \<open>None\<close> is skipped, anything else is appended as it is. A \<open>CancelledError\<close> is not an
  \<open>Exception\<close>.
\<close>

fun collect :: "job_result list \<Rightarrow> job_result list" where
  "collect [] = []"
| "collect (JobRaised e # rs) = collect rs"
| "collect (JobReturned None # rs) = collect rs"
| "collect (r # rs) = r # collect rs"

text \<open>
  How the batch ends under a schedule: \<open>asyncio.Semaphore\<close> refuses a negative value; the
  schedule may be impossible, or leave tasks unfinished; \<open>SystemExit\<close> ends the process;
  otherwise \<open>all_results\<close> is built from the slots.
\<close>

datatype batch_outcome =
    SemaphoreValueError
  | NotASchedule
  | Pending
  | SysExit int
  | AllResults "job_result list"

definition review_batch :: "options \<Rightarrow> job_result list \<Rightarrow> sched_event list \<Rightarrow> batch_outcome" where
  "review_batch opts jobs sched =
     (let n = length jobs;
          k = concurrency_limit n (max_concurrent_reviews opts)
      in if k < 0 then SemaphoreValueError
         else (case run_schedule jobs sched (init_batch (nat k) n) of
                 None \<Rightarrow> NotASchedule
               | Some (Aborted code) \<Rightarrow> SysExit code
               | Some (Running b) \<Rightarrow>
                   if list_all (\<lambda>r. r \<noteq> None) (slots b)
                   then AllResults (collect (map the (slots b)))
                   else Pending))"

text \<open>The results of the jobs of a batch, each from what it meets.\<close>

definition job_results :: "options \<Rightarrow> job_env list \<Rightarrow> job_result list" where
  "job_results opts envs = map (\<lambda>env. fst (review_single_file opts env (init_state False False))) envs"

text \<open>A job succeeded: its coroutine returned a pair.\<close>

fun success_of :: "job_result \<Rightarrow> (string \<times> review_result) option" where
  "success_of (JobReturned p) = p"
| "success_of r = None"

text \<open>A job failed: its coroutine returned \<open>None\<close>, or an \<open>Exception\<close> escaped it.\<close>

fun failed :: "job_result \<Rightarrow> bool" where
  "failed (JobReturned None) = True"
| "failed (JobRaised e) = True"
| "failed r = False"

text \<open>
  The statuses that the handler has shown have no two equal neighbours, and the last one
  shown is the handler's \<open>last_status\<close>.
\<close>

definition shown_inv :: "job_state \<Rightarrow> bool" where
  "shown_inv s =
     (distinct_adj (router_shown s)
      \<and> (router_shown s \<noteq> [] \<longrightarrow> last (router_shown s) = last_status s))"

text \<open>
  A missing-credentials configuration error, as line 330 to 344 recognise it: a
  \<open>RuntimeError\<close> whose message passes the test of line 333.
\<close>

definition is_configuration_error :: "exn \<Rightarrow> bool" where
  "is_configuration_error e = (exn_class e = RuntimeError \<and> is_api_key_error (exn_msg e))"

text \<open>The review of a job that succeeded.\<close>

definition review_of :: "options \<Rightarrow> job_env \<Rightarrow> review_result option" where
  "review_of opts env =
     map_option snd (success_of (fst (review_single_file opts env (init_state False False))))"

text \<open>The schedule that runs the jobs one after the other.\<close>

definition sequential :: "nat \<Rightarrow> sched_event list" where
  "sequential n = concat (map (\<lambda>i. [Acquire i, Complete i]) [0..<n])"

text \<open>
  The semaphore's value and the jobs inside the body add up to the limit, and no job is
  inside twice.
\<close>

definition within_limit :: "nat \<Rightarrow> batch_state \<Rightarrow> bool" where
  "within_limit k b = (distinct (in_flight b) \<and> sem_value b + length (in_flight b) = k)"

section \<open>Example inputs\<close>

definition ok_review :: review_result where
  "ok_review = \<lparr>summary = ''ok'', severity = Low, issues = []\<rparr>"

text \<open>A job whose agent ends its first attempt the given way; nothing is cached.\<close>

definition env_ending :: "string \<Rightarrow> ending \<Rightarrow> job_env" where
  "env_ending path e =
     \<lparr>file_path = path, review_id = ''r1'', prologue = None, packed_context = Inr ''<x/>'',
      cached_data = None, attempts = (\<lambda>_. \<lparr>items = [], ending = e\<rparr>), extracted = ''x'',
      json_loads = (\<lambda>_. None)\<rparr>"

definition example_opts :: options where
  "example_opts =
     \<lparr>no_cache = False, enable_cache = True, council_model = None, max_concurrent_reviews = 5\<rparr>"

text \<open>
  What lines 322 to 396 make of the way \<open>run_agent_review\<close> ends: a pair for a result, the
  \<open>except\<close> clauses for an exception (the \<open>RuntimeError\<close> of line 242 among them), and a
  cancellation goes through.
\<close>

definition job_of_exit :: "string \<Rightarrow> loop_exit \<Rightarrow> job_result" where
  "job_of_exit path x =
     (case x of
        Returned r \<Rightarrow> JobReturned (Some (path, r))
      | Raised e \<Rightarrow> handle_exception e
      | Cancelled \<Rightarrow> JobCancelled
      | FellThrough \<Rightarrow>
          handle_exception (Exn RuntimeError ''Failed to get review result after retries''))"

section \<open>Proofs: the retry loop\<close>

lemma emit_status_frame:
  "agent_calls (emit_status st s) = agent_calls s"
  "sleeps (emit_status st s) = sleeps s"
  "debug_writers (emit_status st s) = debug_writers s"
  "registry_log (emit_status st s) = registry_log s"
  "task_log (emit_status st s) = task_log s"
  "spinner_task (emit_status st s) = spinner_task s"
  "spinner_enabled (emit_status st s) = spinner_enabled s"
  by (simp_all add: emit_status_def)

lemma handle_event_frame:
  "agent_calls (handle_event jl e s) = agent_calls s"
  "sleeps (handle_event jl e s) = sleeps s"
  "debug_writers (handle_event jl e s) = debug_writers s"
  "registry_log (handle_event jl e s) = registry_log s"
  "task_log (handle_event jl e s) = task_log s"
  "spinner_task (handle_event jl e s) = spinner_task s"
  "spinner_enabled (handle_event jl e s) = spinner_enabled s"
  by (induction jl e s rule: handle_event.induct;
      simp add: emit_status_frame write_entry_def split: option.splits)+

lemma handle_counted_frame:
  "agent_calls (handle_counted jl e s) = agent_calls s"
  "sleeps (handle_counted jl e s) = sleeps s"
  "debug_writers (handle_counted jl e s) = debug_writers s"
  "registry_log (handle_counted jl e s) = registry_log s"
  "task_log (handle_counted jl e s) = task_log s"
  "spinner_task (handle_counted jl e s) = spinner_task s"
  "spinner_enabled (handle_counted jl e s) = spinner_enabled s"
  by (simp_all add: handle_counted_def handle_event_frame)

lemma on_first_result_frame:
  "agent_calls (on_first_result s) = agent_calls s"
  "sleeps (on_first_result s) = sleeps s"
  "debug_writers (on_first_result s) = debug_writers s"
  "registry_log (on_first_result s) = registry_log s"
  "spinner_enabled (on_first_result s) = spinner_enabled s"
  by (simp_all add: on_first_result_def Let_def cancel_task_def spinner_stop_def split: option.splits)

lemma stream_step_frame:
  "agent_calls (snd (stream_step jl it p)) = agent_calls (snd p)"
  "sleeps (snd (stream_step jl it p)) = sleeps (snd p)"
  "debug_writers (snd (stream_step jl it p)) = debug_writers (snd p)"
  "registry_log (snd (stream_step jl it p)) = registry_log (snd p)"
  "spinner_enabled (snd (stream_step jl it p)) = spinner_enabled (snd p)"
  by (cases it; cases p; simp add: handle_counted_frame on_first_result_frame)+

lemma stream_fold_frame:
  "agent_calls (snd (fold (stream_step jl) its p)) = agent_calls (snd p)"
  "sleeps (snd (fold (stream_step jl) its p)) = sleeps (snd p)"
  "debug_writers (snd (fold (stream_step jl) its p)) = debug_writers (snd p)"
  "registry_log (snd (fold (stream_step jl) its p)) = registry_log (snd p)"
  "spinner_enabled (snd (fold (stream_step jl) its p)) = spinner_enabled (snd p)"
  by (induction its arbitrary: p; simp add: stream_step_frame)+

lemma cleanup_frame:
  "agent_calls (cleanup_spinner_task t s) = agent_calls s"
  "sleeps (cleanup_spinner_task t s) = sleeps s"
  "debug_writers (cleanup_spinner_task t s) = debug_writers s"
  "registry_log (cleanup_spinner_task t s) = registry_log s"
  "spinner_enabled (cleanup_spinner_task t s) = spinner_enabled s"
  "audit (cleanup_spinner_task t s) = audit s"
  by (simp_all add: cleanup_spinner_task_def Let_def spinner_stop_def await_task_def
      cancel_task_def split: option.splits)

lemma attempt_body_fst:
  "fst (attempt_body jl att fp mr a s) =
     (case ending att of
        Returns r h \<Rightarrow> Exit (Returned r)
      | CancelledError \<Rightarrow> Exit Cancelled
      | Raises e \<Rightarrow>
          if is_rate_limit (exn_msg e) \<and> Suc a < mr then Continue else Exit (Raised e))"
  by (auto simp: attempt_body_def Let_def split: ending.splits)

lemma attempt_body_agent_calls:
  "agent_calls (snd (attempt_body jl att fp mr a s)) = Suc (agent_calls s)"
  by (simp add: attempt_body_def Let_def cleanup_frame stream_fold_frame unregister_def
      write_entry_def create_task_def split: ending.splits)

lemma attempt_body_sleeps:
  "sleeps (snd (attempt_body jl att fp mr a s)) =
     sleeps s @ (if fst (attempt_body jl att fp mr a s) = Continue then [5 * 2 ^ a] else [])"
  by (simp add: attempt_body_def Let_def cleanup_frame stream_fold_frame unregister_def
      write_entry_def create_task_def base_delay_def split: ending.splits)



declare retry_loop.simps [simp del]

lemma retry_loop_trace:
  "a < mr \<Longrightarrow>
   \<exists>k. a \<le> k \<and> k < mr
     \<and> (\<forall>j. a \<le> j \<and> j < k \<longrightarrow> fst (attempt_body jl (agent j) fp mr j s0) = Continue)
     \<and> fst (attempt_body jl (agent k) fp mr k s0) = Exit (fst (retry_loop jl agent fp mr a s))
     \<and> agent_calls (snd (retry_loop jl agent fp mr a s)) = agent_calls s + Suc (k - a)
     \<and> sleeps (snd (retry_loop jl agent fp mr a s)) = sleeps s @ map (\<lambda>i. 5 * 2 ^ i) [a..<k]"
proof (induction jl agent fp mr a s rule: retry_loop.induct)
  case (1 jl agent fp mr a s)
  obtain st s' where body: "attempt_body jl (agent a) fp mr a s = (st, s')"
    by (cases "attempt_body jl (agent a) fp mr a s")
  have "fst (attempt_body jl (agent a) fp mr a s0) = fst (attempt_body jl (agent a) fp mr a s)"
    by (simp add: attempt_body_fst)
  then have fst_indep: "fst (attempt_body jl (agent a) fp mr a s0) = st"
    using body by simp
  have calls: "agent_calls s' = Suc (agent_calls s)"
    using attempt_body_agent_calls [of jl "agent a" fp mr a s] body by simp
  have sl: "sleeps s' = sleeps s @ (if st = Continue then [5 * 2 ^ a] else [])"
    using attempt_body_sleeps [of jl "agent a" fp mr a s] body by simp
  show ?case
  proof (cases st)
    case Continue
    have next_lt: "Suc a < mr"
      using fst_indep Continue by (auto simp: attempt_body_fst split: ending.splits if_splits)
    from "1.IH" [OF "1.prems" body [symmetric] _ next_lt] Continue
    obtain k where k: "Suc a \<le> k" "k < mr"
      "\<forall>j. Suc a \<le> j \<and> j < k \<longrightarrow> fst (attempt_body jl (agent j) fp mr j s0) = Continue"
      "fst (attempt_body jl (agent k) fp mr k s0) = Exit (fst (retry_loop jl agent fp mr (Suc a) s'))"
      "agent_calls (snd (retry_loop jl agent fp mr (Suc a) s')) = agent_calls s' + Suc (k - Suc a)"
      "sleeps (snd (retry_loop jl agent fp mr (Suc a) s')) = sleeps s' @ map (\<lambda>i. 5 * 2 ^ i) [Suc a..<k]"
      by auto
    have unfold: "retry_loop jl agent fp mr a s = retry_loop jl agent fp mr (Suc a) s'"
      using "1.prems" body Continue by (subst retry_loop.simps) simp
    have all: "\<forall>j. a \<le> j \<and> j < k \<longrightarrow> fst (attempt_body jl (agent j) fp mr j s0) = Continue"
    proof (intro allI impI)
      fix j assume j: "a \<le> j \<and> j < k"
      show "fst (attempt_body jl (agent j) fp mr j s0) = Continue"
      proof (cases "j = a")
        case True
        then show ?thesis using fst_indep Continue by simp
      next
        case False
        then have "Suc a \<le> j \<and> j < k" using j by arith
        then show ?thesis using k(3) by blast
      qed
    qed
    have up: "[a..<k] = a # [Suc a..<k]"
      using k(1) by (simp add: upt_conv_Cons)
    have c: "agent_calls (snd (retry_loop jl agent fp mr a s)) = agent_calls s + Suc (k - a)"
      using k(1) k(5) unfold calls by simp
    have d: "sleeps (snd (retry_loop jl agent fp mr a s)) = sleeps s @ map (\<lambda>i. 5 * 2 ^ i) [a..<k]"
      using k(6) unfold sl Continue up by simp
    have e: "fst (attempt_body jl (agent k) fp mr k s0) = Exit (fst (retry_loop jl agent fp mr a s))"
      using k(4) unfold by simp
    have "a \<le> k" using k(1) by simp
    then show ?thesis
      using k(2) all c d e by blast
  next
    case (Exit x)
    have unfold: "retry_loop jl agent fp mr a s = (x, s')"
      using "1.prems" body Exit by (subst retry_loop.simps) simp
    have c: "agent_calls (snd (retry_loop jl agent fp mr a s)) = agent_calls s + Suc (a - a)"
      using unfold calls by simp
    have d: "sleeps (snd (retry_loop jl agent fp mr a s)) = sleeps s @ map (\<lambda>i. 5 * 2 ^ i) [a..<a]"
      using unfold sl Exit by simp
    have e: "fst (attempt_body jl (agent a) fp mr a s0) = Exit (fst (retry_loop jl agent fp mr a s))"
      using unfold fst_indep Exit by simp
    have f: "\<forall>j. a \<le> j \<and> j < a \<longrightarrow> fst (attempt_body jl (agent j) fp mr j s0) = Continue"
      by auto
    show ?thesis
      using "1.prems" c d e f by blast
  qed
qed

lemma is_rate_limit_spec: "is_rate_limit (exn_msg e) = spec_transient e"
  by (simp add: is_rate_limit_def spec_transient_def rate_limit_markers_def Let_def)

lemma run_agent_review_trace:
  "\<exists>k<max_retries.
     (\<forall>j<k. fst (attempt_body jl (ag j) fp max_retries j s0) = Continue)
     \<and> fst (attempt_body jl (ag k) fp max_retries k s0)
         = Exit (fst (run_agent_review jl ag xml code fp rid s))
     \<and> agent_calls (snd (run_agent_review jl ag xml code fp rid s)) = agent_calls s + Suc k
     \<and> sleeps (snd (run_agent_review jl ag xml code fp rid s))
         = sleeps s @ map (\<lambda>i. 5 * 2 ^ i) [0..<k]"
proof -
  define s4 where "s4 = review_prelude xml code fp rid s"
  have run: "run_agent_review jl ag xml code fp rid s = retry_loop jl ag fp max_retries 0 s4"
    by (simp add: run_agent_review_def s4_def)
  have fr: "agent_calls s4 = agent_calls s" "sleeps s4 = sleeps s"
    by (simp_all add: s4_def review_prelude_def register_def write_entry_def)
  have "0 < max_retries" by (simp add: max_retries_def)
  from retry_loop_trace [OF this, of jl ag fp s0 s4]
  show ?thesis unfolding run fr by auto
qed

text \<open>
  Claim C10. With \<open>max_retries = 3\<close> the loop of \<open>run_agent_review\<close> never falls through
  to the \<open>RuntimeError\<close> of line 242: whatever the attempts meet, some attempt
  \<open>k < 3\<close> ends the run, by returning its result, by raising its own exception
  (which is then not a rate-limit error, or \<open>k\<close> is the last attempt), or by letting a
  cancellation through.
\<close>

theorem retry_loop_total:
  "fst (run_agent_review jl ag xml code fp rid s) \<noteq> FellThrough
   \<and> (\<exists>k<max_retries.
        case fst (run_agent_review jl ag xml code fp rid s) of
          Returned r \<Rightarrow> (\<exists>h. ending (ag k) = Returns r h)
        | Raised e \<Rightarrow> ending (ag k) = Raises e \<and> (\<not> is_rate_limit (exn_msg e) \<or> Suc k = max_retries)
        | Cancelled \<Rightarrow> ending (ag k) = CancelledError
        | FellThrough \<Rightarrow> False)"
proof -
  obtain k where k: "k < max_retries"
    "fst (attempt_body jl (ag k) fp max_retries k s)
       = Exit (fst (run_agent_review jl ag xml code fp rid s))"
    using run_agent_review_trace [of jl ag fp s xml code rid s] by blast
  define x where "x = fst (run_agent_review jl ag xml code fp rid s)"
  have body: "fst (attempt_body jl (ag k) fp max_retries k s) = Exit x"
    using k(2) by (simp add: x_def)
  have "case x of
          Returned r \<Rightarrow> (\<exists>h. ending (ag k) = Returns r h)
        | Raised e \<Rightarrow> ending (ag k) = Raises e \<and> (\<not> is_rate_limit (exn_msg e) \<or> Suc k = max_retries)
        | Cancelled \<Rightarrow> ending (ag k) = CancelledError
        | FellThrough \<Rightarrow> False"
    using body k(1) by (cases "ending (ag k)") (auto simp: attempt_body_fst split: if_splits)
  then show ?thesis
    unfolding x_def [symmetric] using k(1) by (cases x) auto
qed

lemma fall_through_when_no_attempt:
  "fst (retry_loop jl ag fp 0 0 s) = FellThrough"
  by (simp add: retry_loop.simps)

text \<open>
  Claim C3. One run makes at most three attempts: \<open>n + 1\<close> of them with \<open>n \<le> 2\<close>
  retries. The delay slept before retry \<open>i\<close> (counted from 0) is \<open>5 * 2 ^ i\<close>: the run adds
  exactly these \<open>n\<close> delays to the sleeps, which are 5 and 10, 15 in all, when both retries
  occur.
\<close>

theorem backoff_delays:
  "\<exists>n\<le>2.
     agent_calls (snd (run_agent_review jl ag xml code fp rid s)) = agent_calls s + Suc n
     \<and> sleeps (snd (run_agent_review jl ag xml code fp rid s))
         = sleeps s @ map (\<lambda>i. base_delay * 2 ^ i) [0..<n]
     \<and> (n = 2 \<longrightarrow> sleeps (snd (run_agent_review jl ag xml code fp rid s)) = sleeps s @ [5, 10]
           \<and> sum_list (sleeps (snd (run_agent_review jl ag xml code fp rid s)))
               = sum_list (sleeps s) + 15)"
proof -
  obtain k where k: "k < max_retries"
    "agent_calls (snd (run_agent_review jl ag xml code fp rid s)) = agent_calls s + Suc k"
    "sleeps (snd (run_agent_review jl ag xml code fp rid s))
         = sleeps s @ map (\<lambda>i. 5 * 2 ^ i) [0..<k]"
    using run_agent_review_trace [of jl ag fp s xml code rid s] by blast
  have "k \<le> 2" using k(1) by (simp add: max_retries_def)
  moreover have "[0..<2] = [0, Suc 0]" by (simp add: upt_rec)
  ultimately show ?thesis
    using k(2,3) by (intro exI [of _ k]) (auto simp: base_delay_def)
qed


lemma attempt_body_retry:
  "ending att = Raises e \<Longrightarrow>
   fst (attempt_body jl att fp max_retries a s0) =
     (if spec_transient e \<and> Suc a < 3 then Continue else Exit (Raised e))"
  by (simp add: attempt_body_fst is_rate_limit_spec max_retries_def)

lemma run_stops_at:
  assumes k: "k < 3"
    and before: "\<forall>j<k. \<exists>e'. ending (ag j) = Raises e' \<and> spec_transient e'"
    and stop: "fst (attempt_body jl (ag k) fp max_retries k s) = Exit x"
  shows "fst (run_agent_review jl ag xml code fp rid s) = x
         \<and> agent_calls (snd (run_agent_review jl ag xml code fp rid s)) = agent_calls s + Suc k
         \<and> sleeps (snd (run_agent_review jl ag xml code fp rid s))
             = sleeps s @ map (\<lambda>i. 5 * 2 ^ i) [0..<k]"
proof -
  obtain k' where k': "k' < max_retries"
    "\<forall>j<k'. fst (attempt_body jl (ag j) fp max_retries j s) = Continue"
    "fst (attempt_body jl (ag k') fp max_retries k' s)
       = Exit (fst (run_agent_review jl ag xml code fp rid s))"
    "agent_calls (snd (run_agent_review jl ag xml code fp rid s)) = agent_calls s + Suc k'"
    "sleeps (snd (run_agent_review jl ag xml code fp rid s))
       = sleeps s @ map (\<lambda>i. 5 * 2 ^ i) [0..<k']"
    using run_agent_review_trace [of jl ag fp s xml code rid s] by blast
  have "\<not> k' < k"
  proof
    assume lt: "k' < k"
    then obtain e' where e': "ending (ag k') = Raises e'" "spec_transient e'"
      using before by blast
    have "Suc k' < 3" using lt k by arith
    then have "fst (attempt_body jl (ag k') fp max_retries k' s) = Continue"
      using attempt_body_retry [OF e'(1), of jl fp k' s] e'(2) by simp
    then show False using k'(3) by simp
  qed
  moreover have "\<not> k < k'"
  proof
    assume "k < k'"
    then have "fst (attempt_body jl (ag k) fp max_retries k s) = Continue"
      using k'(2) by blast
    then show False using stop by simp
  qed
  ultimately have "k' = k" by arith
  then show ?thesis using k'(3,4,5) stop by simp
qed

lemma run_raises_at:
  assumes k: "k < 3"
    and before: "\<forall>j<k. \<exists>e'. ending (ag j) = Raises e' \<and> spec_transient e'"
    and at: "ending (ag k) = Raises e"
    and stop: "\<not> spec_transient e \<or> k = 2"
  shows "fst (run_agent_review jl ag xml code fp rid s) = Raised e
         \<and> agent_calls (snd (run_agent_review jl ag xml code fp rid s)) = agent_calls s + Suc k"
proof -
  have "fst (attempt_body jl (ag k) fp max_retries k s) = Exit (Raised e)"
    using attempt_body_retry [OF at, of jl fp k s] stop by auto
  from run_stops_at [OF k before this] show ?thesis by simp
qed

text \<open>
  Claim C2. An attempt that ends with an exception is retried if and only if the lowercase
  rendering of the message contains one of the markers and fewer than three attempts have
  been made; otherwise the loop leaves with that exception. Over the whole run: when the
  attempts before attempt \<open>k\<close> all failed with a transient error and attempt \<open>k\<close> fails
  with an error that is not transient, or is the third attempt, the run raises that very
  error after exactly \<open>k + 1\<close> attempts. So an error without a marker at the first attempt
  is raised after one attempt, and a transient error that lasts through three attempts
  is raised to the caller.
\<close>

theorem retry_iff_transient:
  "(\<forall>a e. a < max_retries \<and> ending att = Raises e \<longrightarrow>
       fst (attempt_body jl att fp max_retries a s0) =
         (if spec_transient e \<and> Suc a < 3 then Continue else Exit (Raised e)))
   \<and> (\<forall>k e. k < 3 \<and> (\<forall>j<k. \<exists>e'. ending (ag j) = Raises e' \<and> spec_transient e')
          \<and> ending (ag k) = Raises e \<and> (\<not> spec_transient e \<or> k = 2) \<longrightarrow>
        fst (run_agent_review jl ag xml code fp rid s) = Raised e
        \<and> agent_calls (snd (run_agent_review jl ag xml code fp rid s)) = agent_calls s + Suc k)"
  using attempt_body_retry run_raises_at by blast


lemma transient_429: "spec_transient (Exn OtherException ''429'')"
  by (simp add: spec_transient_def rate_limit_markers_def lower_def lower_char_def sublist_code)

lemma not_transient_denied: "\<not> spec_transient (Exn OtherException ''denied'')"
  by (simp add: spec_transient_def rate_limit_markers_def lower_def lower_char_def sublist_code)

theorem retry_iff_transient_witness:
  "fst (attempt_body (\<lambda>_. None) \<lparr>items = [], ending = Raises (Exn OtherException ''429'')\<rparr>
          ''a.py'' max_retries 0 (init_state True False)) = Continue
   \<and> fst (run_agent_review (\<lambda>_. None)
          (\<lambda>_. \<lparr>items = [], ending = Raises (Exn OtherException ''denied'')\<rparr>)
          ''<x/>'' ''x'' ''a.py'' None (init_state True False)) = Raised (Exn OtherException ''denied'')
   \<and> agent_calls (snd (run_agent_review (\<lambda>_. None)
          (\<lambda>_. \<lparr>items = [], ending = Raises (Exn OtherException ''denied'')\<rparr>)
          ''<x/>'' ''x'' ''a.py'' None (init_state True False))) = 1
   \<and> fst (run_agent_review (\<lambda>_. None)
          (\<lambda>_. \<lparr>items = [], ending = Raises (Exn OtherException ''429'')\<rparr>)
          ''<x/>'' ''x'' ''a.py'' None (init_state True False)) = Raised (Exn OtherException ''429'')
   \<and> agent_calls (snd (run_agent_review (\<lambda>_. None)
          (\<lambda>_. \<lparr>items = [], ending = Raises (Exn OtherException ''429'')\<rparr>)
          ''<x/>'' ''x'' ''a.py'' None (init_state True False))) = 3"
proof -
  let ?att = "\<lparr>items = [], ending = Raises (Exn OtherException ''429'')\<rparr>"
  let ?s = "init_state True False"
  note T = retry_iff_transient
  have a: "fst (attempt_body (\<lambda>_. None) ?att ''a.py'' max_retries 0 ?s) = Continue"
    using conjunct1 [OF T [of ?att "\<lambda>_. None" "''a.py''" ?s], rule_format, of 0 "Exn OtherException ''429''"]
      transient_429 by (simp add: max_retries_def)
  have b: "fst (run_agent_review (\<lambda>_. None)
          (\<lambda>_. \<lparr>items = [], ending = Raises (Exn OtherException ''denied'')\<rparr>)
          ''<x/>'' ''x'' ''a.py'' None ?s) = Raised (Exn OtherException ''denied'')
     \<and> agent_calls (snd (run_agent_review (\<lambda>_. None)
          (\<lambda>_. \<lparr>items = [], ending = Raises (Exn OtherException ''denied'')\<rparr>)
          ''<x/>'' ''x'' ''a.py'' None ?s)) = agent_calls ?s + Suc 0"
    using conjunct2 [OF T, rule_format, of 0
        "\<lambda>_. \<lparr>items = [], ending = Raises (Exn OtherException ''denied'')\<rparr>"
        "Exn OtherException ''denied''"]
      not_transient_denied by simp
  have c: "fst (run_agent_review (\<lambda>_. None) (\<lambda>_. ?att) ''<x/>'' ''x'' ''a.py'' None ?s)
              = Raised (Exn OtherException ''429'')
     \<and> agent_calls (snd (run_agent_review (\<lambda>_. None) (\<lambda>_. ?att) ''<x/>'' ''x'' ''a.py'' None ?s))
              = agent_calls ?s + Suc 2"
    using conjunct2 [OF T, rule_format, of 2 "\<lambda>_. ?att" "Exn OtherException ''429''"]
      transient_429 by simp
  show ?thesis using a b c by (simp add: init_state_def)
qed

theorem retry_loop_total_witness:
  "fst (run_agent_review (\<lambda>_. None)
          (\<lambda>_. \<lparr>items = [], ending = Raises (Exn OtherException ''429'')\<rparr>)
          ''<x/>'' ''x'' ''a.py'' None (init_state True False)) \<noteq> FellThrough"
  using retry_loop_total [of "\<lambda>_. None"
      "\<lambda>_. \<lparr>items = [], ending = Raises (Exn OtherException ''429'')\<rparr>"
      "''<x/>''" "''x''" "''a.py''" None "init_state True False"]
  by blast


theorem backoff_delays_witness:
  "agent_calls (snd (run_agent_review (\<lambda>_. None)
      (\<lambda>a. if a < 2 then \<lparr>items = [], ending = Raises (Exn OtherException ''429'')\<rparr>
            else \<lparr>items = [], ending = Returns \<lparr>summary = ''ok'', severity = Low, issues = []\<rparr> []\<rparr>)
      ''<x/>'' ''x'' ''a.py'' None (init_state True False))) = 3
   \<and> sleeps (snd (run_agent_review (\<lambda>_. None)
      (\<lambda>a. if a < 2 then \<lparr>items = [], ending = Raises (Exn OtherException ''429'')\<rparr>
            else \<lparr>items = [], ending = Returns \<lparr>summary = ''ok'', severity = Low, issues = []\<rparr> []\<rparr>)
      ''<x/>'' ''x'' ''a.py'' None (init_state True False))) = [5, 10]
   \<and> sum_list (sleeps (snd (run_agent_review (\<lambda>_. None)
      (\<lambda>a. if a < 2 then \<lparr>items = [], ending = Raises (Exn OtherException ''429'')\<rparr>
            else \<lparr>items = [], ending = Returns \<lparr>summary = ''ok'', severity = Low, issues = []\<rparr> []\<rparr>)
      ''<x/>'' ''x'' ''a.py'' None (init_state True False)))) = 15"
proof -
  let ?ag = "\<lambda>a::nat. if a < 2 then \<lparr>items = [], ending = Raises (Exn OtherException ''429'')\<rparr>
            else \<lparr>items = [], ending = Returns \<lparr>summary = ''ok'', severity = Low, issues = []\<rparr> []\<rparr>"
  let ?R = "run_agent_review (\<lambda>_. None) ?ag ''<x/>'' ''x'' ''a.py'' None (init_state True False)"
  have "fst (attempt_body (\<lambda>_. None) (?ag 2) ''a.py'' max_retries 2 (init_state True False))
          = Exit (Returned \<lparr>summary = ''ok'', severity = Low, issues = []\<rparr>)"
    by (simp add: attempt_body_fst)
  moreover have "\<forall>j<2. \<exists>e'. ending (?ag j) = Raises e' \<and> spec_transient e'"
    using transient_429 by simp
  ultimately have len: "length (sleeps (snd ?R)) = 2"
    using run_stops_at [of 2 ?ag "\<lambda>_. None" "''a.py''" "init_state True False" _ "''<x/>''" "''x''" None]
    by (simp add: init_state_def)
  obtain n where n: "n \<le> 2"
    "agent_calls (snd ?R) = agent_calls (init_state True False) + Suc n"
    "sleeps (snd ?R) = sleeps (init_state True False) @ map (\<lambda>i. base_delay * 2 ^ i) [0..<n]"
    "n = 2 \<longrightarrow> sleeps (snd ?R) = sleeps (init_state True False) @ [5, 10]
        \<and> sum_list (sleeps (snd ?R)) = sum_list (sleeps (init_state True False)) + 15"
    using backoff_delays [of "\<lambda>_. None" ?ag "''<x/>''" "''x''" "''a.py''" None "init_state True False"]
    by blast
  have "n = 2" using len n(3) by (simp add: init_state_def)
  then show ?thesis using n(2,4) by (simp add: init_state_def)
qed

section \<open>Proofs: the event handler\<close>

lemma retry_loop_preserves:
  assumes step: "\<And>a s. P s \<Longrightarrow> P (snd (attempt_body jl (ag a) fp mr a s))"
    and init: "P s"
  shows "P (snd (retry_loop jl ag fp mr a s))"
  using init
proof (induction "mr - a" arbitrary: a s)
  case 0
  then show ?case by (simp add: retry_loop.simps)
next
  case (Suc n)
  have lt: "a < mr" using Suc.hyps(2) by arith
  obtain st s' where body: "attempt_body jl (ag a) fp mr a s = (st, s')"
    by (cases "attempt_body jl (ag a) fp mr a s")
  have P': "P s'"
    using body step [OF Suc.prems, of a] by simp
  show ?case
  proof (cases st)
    case Continue
    have "retry_loop jl ag fp mr a s = retry_loop jl ag fp mr (Suc a) s'"
      using lt body Continue by (subst retry_loop.simps) simp
    moreover have "n = mr - Suc a" using Suc.hyps(2) by arith
    ultimately show ?thesis
      using Suc.hyps(1) [OF _ P'] by simp
  next
    case (Exit x)
    have "retry_loop jl ag fp mr a s = (x, s')"
      using lt body Exit by (subst retry_loop.simps) simp
    then show ?thesis using P' by simp
  qed
qed

lemma emit_status_cases:
  "(router_shown (emit_status st s) = router_shown s \<and> last_status (emit_status st s) = last_status s)
   \<or> (st \<noteq> last_status s \<and> router_shown (emit_status st s) = router_shown s @ [st]
        \<and> last_status (emit_status st s) = st)"
  by (simp add: emit_status_def)

lemma handle_event_cases:
  "(router_shown (handle_event jl e s) = router_shown s
      \<and> last_status (handle_event jl e s) = last_status s)
   \<or> (\<exists>st. st \<noteq> last_status s \<and> router_shown (handle_event jl e s) = router_shown s @ [st]
        \<and> last_status (handle_event jl e s) = st)"
  by (induction jl e s rule: handle_event.induct)
     (auto simp: emit_status_def write_entry_def split: option.splits)

lemma shown_inv_handle_event: "shown_inv s \<Longrightarrow> shown_inv (handle_event jl e s)"
  using handle_event_cases [of jl e s]
  by (auto simp: shown_inv_def distinct_adj_append_iff)

lemma shown_inv_cong:
  "router_shown s' = router_shown s \<Longrightarrow> last_status s' = last_status s \<Longrightarrow>
   shown_inv s' = shown_inv s"
  by (simp add: shown_inv_def)

lemma shown_inv_handle_counted: "shown_inv s \<Longrightarrow> shown_inv (handle_counted jl e s)"
  using shown_inv_handle_event [of s jl e]
  by (simp add: handle_counted_def shown_inv_def)

lemma shown_inv_on_first_result: "shown_inv (on_first_result s) = shown_inv s"
  by (rule shown_inv_cong)
     (simp_all add: on_first_result_def Let_def cancel_task_def spinner_stop_def
        split: option.splits)

lemma shown_inv_stream_fold:
  "shown_inv (snd p) \<Longrightarrow> shown_inv (snd (fold (stream_step jl) its p))"
proof (induction its arbitrary: p)
  case Nil
  then show ?case by simp
next
  case (Cons it its)
  obtain rr s where p: "p = (rr, s)" by (cases p)
  have "shown_inv (snd (stream_step jl it p))"
    using Cons.prems p
    by (cases it) (simp_all add: shown_inv_handle_counted shown_inv_on_first_result)
  then show ?case using Cons.IH by simp
qed

lemma shown_inv_cleanup: "shown_inv (cleanup_spinner_task t s) = shown_inv s"
  by (rule shown_inv_cong)
     (simp_all add: cleanup_spinner_task_def Let_def spinner_stop_def await_task_def
        cancel_task_def split: option.splits)

lemma shown_inv_attempt_body:
  assumes "shown_inv s"
  shows "shown_inv (snd (attempt_body jl att fp mr a s))"
proof -
  define s1 where "s1 = s\<lparr>spinner_task := None\<rparr>"
  define s2 where "s2 = (if spinner_enabled s1 then create_task a s1 else s1)"
  define s3 where "s3 = s2\<lparr>agent_calls := Suc (agent_calls s2)\<rparr>"
  define s4 where "s4 = snd (fold (stream_step jl) (items att) (False, s3))"
  have "shown_inv s3"
    using assms by (simp add: s3_def s2_def s1_def shown_inv_def create_task_def)
  then have s4: "shown_inv s4"
    using shown_inv_stream_fold [of "(False, s3)" jl "items att"] by (simp add: s4_def)
  have body: "attempt_body jl att fp mr a s =
     (case ending att of
           Returns review_result history \<Rightarrow>
             (let s5 = s4\<lparr>audit := audit s4 @ history\<rparr>;
                  s6 = write_entry (AgentResponse review_result) s5;
                  s7 = unregister fp s6
              in (Exit (Returned review_result), cleanup_spinner_task (spinner_task s7) s7))
         | CancelledError \<Rightarrow>
             (Exit Cancelled, cleanup_spinner_task (spinner_task s4) s4)
         | Raises e \<Rightarrow>
             (let s5 = cleanup_spinner_task (spinner_task s4) s4
              in if is_rate_limit (exn_msg e) \<and> int a < int mr - 1
                 then (let delay = base_delay * 2 ^ a;
                           s6 = s5\<lparr>sleeps := sleeps s5 @ [delay]\<rparr>
                       in (Continue, cleanup_spinner_task (spinner_task s6) s6))
                 else (let s6 = write_entry (ErrorEntry (exn_msg e) (exn_class e)) s5;
                           s7 = unregister fp s6
                       in (Exit (Raised e), cleanup_spinner_task (spinner_task s7) s7))))"
    unfolding attempt_body_def s4_def s3_def s2_def s1_def Let_def by (rule refl)
  have up: "\<And>f. shown_inv (s4\<lparr>audit := f\<rparr>) = shown_inv s4"
    "\<And>u e. shown_inv (write_entry e u) = shown_inv u"
    "\<And>u. shown_inv (unregister fp u) = shown_inv u"
    "\<And>u d. shown_inv (u\<lparr>sleeps := d\<rparr>) = shown_inv u"
    by (simp_all add: shown_inv_def write_entry_def unregister_def)
  show ?thesis
    unfolding body using s4
    by (cases "ending att") (simp_all add: Let_def shown_inv_cleanup up)
qed

text \<open>
  Claim C9. For every event, the handler either shows nothing and keeps \<open>last_status\<close>, or
  shows one status that differs from \<open>last_status\<close> and sets \<open>last_status\<close> to it. So
  over any stream of events the statuses shown keep having no two equal neighbours, with
  \<open>last_status\<close> the last one shown; and over a whole job, retries included, the handler
  never shows the same status twice in immediate succession.
\<close>

theorem router_status_deduplicated:
  "((router_shown (handle_event jl e s) = router_shown s
       \<and> last_status (handle_event jl e s) = last_status s)
    \<or> (\<exists>st. st \<noteq> last_status s \<and> router_shown (handle_event jl e s) = router_shown s @ [st]
         \<and> last_status (handle_event jl e s) = st))
   \<and> (shown_inv s \<longrightarrow> shown_inv (event_stream_handler jl evs s))
   \<and> (router_shown s0 = [] \<longrightarrow>
        distinct_adj (router_shown (snd (run_agent_review jl ag xml code fp rid s0))))"
proof (intro conjI impI)
  show "(router_shown (handle_event jl e s) = router_shown s
       \<and> last_status (handle_event jl e s) = last_status s)
    \<or> (\<exists>st. st \<noteq> last_status s \<and> router_shown (handle_event jl e s) = router_shown s @ [st]
         \<and> last_status (handle_event jl e s) = st)"
    by (rule handle_event_cases)
next
  assume "shown_inv s"
  then show "shown_inv (event_stream_handler jl evs s)"
    unfolding event_stream_handler_def
    by (induction evs arbitrary: s) (simp_all add: shown_inv_handle_counted)
next
  assume empty: "router_shown s0 = []"
  define s4 where "s4 = review_prelude xml code fp rid s0"
  have run: "run_agent_review jl ag xml code fp rid s0 = retry_loop jl ag fp max_retries 0 s4"
    by (simp add: run_agent_review_def s4_def)
  have s4: "shown_inv s4"
    using empty by (simp add: s4_def review_prelude_def shown_inv_def register_def write_entry_def)
  have "shown_inv (snd (retry_loop jl ag fp max_retries 0 s4))"
  proof (rule retry_loop_preserves [where P = shown_inv])
    fix a s assume "shown_inv s"
    then show "shown_inv (snd (attempt_body jl (ag a) fp max_retries a s))"
      by (rule shown_inv_attempt_body)
  next
    show "shown_inv s4" by (rule s4)
  qed
  then show "distinct_adj (router_shown (snd (run_agent_review jl ag xml code fp rid s0)))"
    by (simp add: run shown_inv_def)
qed

theorem router_status_deduplicated_witness:
  "shown_inv (event_stream_handler (\<lambda>_. None)
       [FinalResultEvent, FinalResultEvent, PartDeltaEvent True, FinalResultEvent]
       (init_state True False))
   \<and> distinct_adj (router_shown (snd (run_agent_review (\<lambda>_. None)
       (\<lambda>_. \<lparr>items = [Ev FinalResultEvent, Ev FinalResultEvent], ending = CancelledError\<rparr>)
       ''<x/>'' ''x'' ''a.py'' None (init_state True False))))"
  using router_status_deduplicated [of "\<lambda>_. None" FinalResultEvent "init_state True False"
      "[FinalResultEvent, FinalResultEvent, PartDeltaEvent True, FinalResultEvent]"
      "init_state True False"
      "\<lambda>_. \<lparr>items = [Ev FinalResultEvent, Ev FinalResultEvent], ending = CancelledError\<rparr>"
      "''<x/>''" "''x''" "''a.py''" None]
  by (simp add: shown_inv_def init_state_def)

lemma handler_example:
  "router_shown (event_stream_handler (\<lambda>_. None)
       [FinalResultEvent, FinalResultEvent, PartStartEvent None None None, PartStartEvent None None None,
        FinalResultEvent]
       (init_state True False))
   = [''Finalizing review...'', ''Generating review...'', ''Finalizing review...'']"
  by (simp add: event_stream_handler_def handle_counted_def emit_status_def init_state_def)

section \<open>Proofs: the registry and the spinner task\<close>

lemma retry_loop_exit:
  "a < mr \<Longrightarrow> fst (attempt_body jl (ag a) fp mr a s) = Exit x \<Longrightarrow>
   retry_loop jl ag fp mr a s = (x, snd (attempt_body jl (ag a) fp mr a s))"
  by (subst retry_loop.simps) (auto split: prod.splits)

lemma attempt_body_registry:
  "debug_writers (snd (attempt_body jl att fp mr a s)) =
     (case fst (attempt_body jl att fp mr a s) of
        Continue \<Rightarrow> debug_writers s
      | Exit Cancelled \<Rightarrow> debug_writers s
      | Exit x \<Rightarrow> (debug_writers s)(fp := None))"
  "registry_log (snd (attempt_body jl att fp mr a s)) =
     (case fst (attempt_body jl att fp mr a s) of
        Continue \<Rightarrow> registry_log s
      | Exit Cancelled \<Rightarrow> registry_log s
      | Exit x \<Rightarrow> registry_log s @ [Unregister fp])"
  by (simp_all add: attempt_body_def Let_def cleanup_frame stream_fold_frame unregister_def
      write_entry_def create_task_def split: ending.splits)

lemma retry_loop_registry:
  "a < mr \<Longrightarrow>
   debug_writers (snd (retry_loop jl ag fp mr a s)) =
     (if fst (retry_loop jl ag fp mr a s) = Cancelled then debug_writers s
      else (debug_writers s)(fp := None))
   \<and> registry_log (snd (retry_loop jl ag fp mr a s)) =
     registry_log s @ (if fst (retry_loop jl ag fp mr a s) = Cancelled then [] else [Unregister fp])"
proof (induction "mr - a" arbitrary: a s)
  case 0
  then show ?case by simp
next
  case (Suc n)
  obtain st s' where body: "attempt_body jl (ag a) fp mr a s = (st, s')"
    by (cases "attempt_body jl (ag a) fp mr a s")
  note reg = attempt_body_registry [of jl "ag a" fp mr a s, unfolded body, simplified]
  show ?case
  proof (cases st)
    case Continue
    have next_lt: "Suc a < mr"
      using attempt_body_fst [of jl "ag a" fp mr a s] body Continue
      by (auto split: ending.splits if_splits)
    have unfold: "retry_loop jl ag fp mr a s = retry_loop jl ag fp mr (Suc a) s'"
      using Suc.prems body Continue by (subst retry_loop.simps) simp
    have "n = mr - Suc a" using Suc.hyps(2) by arith
    from Suc.hyps(1) [OF this next_lt, of s'] reg Continue
    show ?thesis unfolding unfold by simp
  next
    case (Exit x)
    have unfold: "retry_loop jl ag fp mr a s = (x, s')"
      using Suc.prems body Exit by (subst retry_loop.simps) simp
    have "x \<noteq> FellThrough"
      using attempt_body_fst [of jl "ag a" fp mr a s] body Exit
      by (auto split: ending.splits if_splits)
    then show ?thesis
      using reg Exit unfold by (cases x) simp_all
  qed
qed

lemma registry_after_run:
  "debug_writers (snd (run_agent_review jl ag xml code fp rid s)) fp =
     (if fst (run_agent_review jl ag xml code fp rid s) = Cancelled then Some rid else None)"
  "registry_log (snd (run_agent_review jl ag xml code fp rid s)) =
     registry_log s @ Register fp #
       (if fst (run_agent_review jl ag xml code fp rid s) = Cancelled then [] else [Unregister fp])"
proof -
  define s4 where "s4 = review_prelude xml code fp rid s"
  have run: "run_agent_review jl ag xml code fp rid s = retry_loop jl ag fp max_retries 0 s4"
    by (simp add: run_agent_review_def s4_def)
  have fr: "debug_writers s4 fp = Some rid" "registry_log s4 = registry_log s @ [Register fp]"
    by (simp_all add: s4_def review_prelude_def register_def write_entry_def)
  have "0 < max_retries" by (simp add: max_retries_def)
  note loop = retry_loop_registry [OF this, of jl ag fp s4]
  show "debug_writers (snd (run_agent_review jl ag xml code fp rid s)) fp =
     (if fst (run_agent_review jl ag xml code fp rid s) = Cancelled then Some rid else None)"
    using loop fr unfolding run by simp
  show "registry_log (snd (run_agent_review jl ag xml code fp rid s)) =
     registry_log s @ Register fp #
       (if fst (run_agent_review jl ag xml code fp rid s) = Cancelled then [] else [Unregister fp])"
    using loop fr unfolding run by simp
qed

lemma registry_cleared_unless_cancelled:
  "fst (run_agent_review jl ag xml code fp rid s) \<noteq> Cancelled \<Longrightarrow>
   debug_writers (snd (run_agent_review jl ag xml code fp rid s)) fp = None"
  by (simp add: registry_after_run)

text \<open>
  Claim C5 says that the writer is stored once before the agent is invoked and removed once
  on every way out, cancellation included. \<open>registry_after_run\<close> shows this for every way
  out but one: when an attempt is cancelled, line 204 raises again without the \<open>pop\<close> of
  lines 195 and 234. Here the first attempt of a job is cancelled: the run ends with the
  cancellation, the registry still holds the writer under the file's path, and the only
  registry operation was the \<open>Register\<close>.
\<close>

theorem registry_entry_survives_cancellation:
  "fst (run_agent_review (\<lambda>_. None) (\<lambda>_. \<lparr>items = [], ending = CancelledError\<rparr>)
          ''<x/>'' ''x'' ''a.py'' (Some ''r1'') (init_state True False)) = Cancelled
   \<and> debug_writers (snd (run_agent_review (\<lambda>_. None) (\<lambda>_. \<lparr>items = [], ending = CancelledError\<rparr>)
          ''<x/>'' ''x'' ''a.py'' (Some ''r1'') (init_state True False))) ''a.py''
       = Some (Some ''r1'')
   \<and> registry_log (snd (run_agent_review (\<lambda>_. None) (\<lambda>_. \<lparr>items = [], ending = CancelledError\<rparr>)
          ''<x/>'' ''x'' ''a.py'' (Some ''r1'') (init_state True False)))
       = [Register ''a.py'']"
proof -
  let ?ag = "\<lambda>_::nat. \<lparr>items = [], ending = CancelledError\<rparr>"
  have "fst (attempt_body (\<lambda>_. None) (?ag 0) ''a.py'' max_retries 0 (init_state True False))
          = Exit Cancelled"
    by (simp add: attempt_body_fst)
  then have c: "fst (run_agent_review (\<lambda>_. None) ?ag ''<x/>'' ''x'' ''a.py'' (Some ''r1'')
          (init_state True False)) = Cancelled"
    using run_stops_at [of 0 ?ag "\<lambda>_. None" "''a.py''" "init_state True False" Cancelled
        "''<x/>''" "''x''" "Some ''r1''"]
    by simp
  show ?thesis
    using c by (simp add: registry_after_run init_state_def)
qed

text \<open>The spinner task: what the stream does to it, and what the attempt leaves.\<close>

lemma stream_fold_tasks:
  assumes "spinner_task (snd p) = (if fst p then None else Some a)"
    and "task_log (snd p) = L @ CreateTask a # (if fst p then [CancelTask a] else [])"
    and "AwaitTask a \<notin> set L"
  shows "fst (fold (stream_step jl) its p) = (fst p \<or> PartialResult True \<in> set its)
    \<and> spinner_task (snd (fold (stream_step jl) its p))
        = (if fst (fold (stream_step jl) its p) then None else Some a)
    \<and> task_log (snd (fold (stream_step jl) its p))
        = L @ CreateTask a # (if fst (fold (stream_step jl) its p) then [CancelTask a] else [])"
  using assms
proof (induction its arbitrary: p)
  case Nil
  then show ?case by simp
next
  case (Cons it its)
  obtain rr s where p: "p = (rr, s)" by (cases p)
  have step: "fst (stream_step jl it p) = (rr \<or> it = PartialResult True)
      \<and> spinner_task (snd (stream_step jl it p)) = (if fst (stream_step jl it p) then None else Some a)
      \<and> task_log (snd (stream_step jl it p))
          = L @ CreateTask a # (if fst (stream_step jl it p) then [CancelTask a] else [])"
  proof (cases it)
    case (Ev e)
    then show ?thesis
      using Cons.prems(1,2) p by (simp add: handle_counted_frame)
  next
    case (PartialResult truthy)
    then show ?thesis
      using Cons.prems p
      by (auto simp: on_first_result_def Let_def task_done_def cancel_task_def spinner_stop_def)
  qed
  from Cons.IH [of "stream_step jl it p"] step Cons.prems(3) p
  show ?case by auto
qed

lemma cleanup_live:
  "AwaitTask a \<notin> set (task_log s) \<Longrightarrow>
   task_log (cleanup_spinner_task (Some a) s) = task_log s @ [CancelTask a, AwaitTask a]"
  by (simp add: cleanup_spinner_task_def Let_def task_done_def spinner_stop_def
      cancel_task_def await_task_def)

lemma cleanup_done:
  "AwaitTask a \<in> set (task_log s) \<Longrightarrow>
   task_log (cleanup_spinner_task (Some a) s) = task_log s"
  by (simp add: cleanup_spinner_task_def Let_def task_done_def spinner_stop_def)

lemma cleanup_none: "task_log (cleanup_spinner_task None s) = task_log s"
  by (simp add: cleanup_spinner_task_def Let_def spinner_stop_def)

lemma cleanup_spinner_task_field:
  "spinner_task (cleanup_spinner_task t s) = spinner_task s"
  by (simp add: cleanup_spinner_task_def Let_def spinner_stop_def await_task_def cancel_task_def
      split: option.splits)

lemma attempt_body_task_log:
  assumes en: "spinner_enabled s" and fresh: "AwaitTask a \<notin> set (task_log s)"
  shows "task_log (snd (attempt_body jl att fp mr a s)) =
     task_log s @ [CreateTask a, CancelTask a]
       @ (if PartialResult True \<in> set (items att) then [] else [AwaitTask a])"
proof -
  define s1 where "s1 = s\<lparr>spinner_task := None\<rparr>"
  define s2 where "s2 = (if spinner_enabled s1 then create_task a s1 else s1)"
  define s3 where "s3 = s2\<lparr>agent_calls := Suc (agent_calls s2)\<rparr>"
  define s4 where "s4 = snd (fold (stream_step jl) (items att) (False, s3))"
  define streamed where "streamed = (PartialResult True \<in> set (items att))"
  have s3: "spinner_task s3 = Some a" "task_log s3 = task_log s @ [CreateTask a]"
    using en by (simp_all add: s3_def s2_def s1_def create_task_def)
  have s4: "spinner_task s4 = (if streamed then None else Some a)"
    "task_log s4 = task_log s @ CreateTask a # (if streamed then [CancelTask a] else [])"
    using stream_fold_tasks [of "(False, s3)" a "task_log s" jl "items att"] s3 fresh
    by (simp_all add: s4_def streamed_def)
  have body: "attempt_body jl att fp mr a s =
     (case ending att of
           Returns review_result history \<Rightarrow>
             (let s5 = s4\<lparr>audit := audit s4 @ history\<rparr>;
                  s6 = write_entry (AgentResponse review_result) s5;
                  s7 = unregister fp s6
              in (Exit (Returned review_result), cleanup_spinner_task (spinner_task s7) s7))
         | CancelledError \<Rightarrow>
             (Exit Cancelled, cleanup_spinner_task (spinner_task s4) s4)
         | Raises e \<Rightarrow>
             (let s5 = cleanup_spinner_task (spinner_task s4) s4
              in if is_rate_limit (exn_msg e) \<and> int a < int mr - 1
                 then (let delay = base_delay * 2 ^ a;
                           s6 = s5\<lparr>sleeps := sleeps s5 @ [delay]\<rparr>
                       in (Continue, cleanup_spinner_task (spinner_task s6) s6))
                 else (let s6 = write_entry (ErrorEntry (exn_msg e) (exn_class e)) s5;
                           s7 = unregister fp s6
                       in (Exit (Raised e), cleanup_spinner_task (spinner_task s7) s7))))"
    unfolding attempt_body_def s4_def s3_def s2_def s1_def Let_def by (rule refl)
  have fr: "\<And>u e. task_log (write_entry e u) = task_log u"
    "\<And>u e. spinner_task (write_entry e u) = spinner_task u"
    "\<And>u. task_log (unregister fp u) = task_log u"
    "\<And>u. spinner_task (unregister fp u) = spinner_task u"
    by (simp_all add: write_entry_def unregister_def)
  show ?thesis
  proof (cases streamed)
    case True
    then show ?thesis
      unfolding body streamed_def [symmetric] using s4
      by (cases "ending att")
         (simp_all add: Let_def fr cleanup_none cleanup_spinner_task_field)
  next
    case False
    have live: "AwaitTask a \<notin> set (task_log s4)"
      using s4 False fresh by simp
    have once: "task_log (cleanup_spinner_task (Some a) s4) = task_log s4 @ [CancelTask a, AwaitTask a]"
      using cleanup_live [OF live] .
    have twice: "\<And>u. task_log u = task_log (cleanup_spinner_task (Some a) s4) \<Longrightarrow>
        task_log (cleanup_spinner_task (Some a) u) = task_log u"
      by (rule cleanup_done) (simp add: once)
    show ?thesis
    proof (cases "ending att")
      case (Returns r h)
      have "AwaitTask a \<notin> set (task_log (unregister fp (write_entry (AgentResponse r)
               (s4\<lparr>audit := audit s4 @ h\<rparr>))))"
        using live by (simp add: fr)
      from cleanup_live [OF this] show ?thesis
        unfolding body streamed_def [symmetric] using s4 False Returns
        by (simp add: Let_def fr)
    next
      case (Raises e)
      show ?thesis
        unfolding body streamed_def [symmetric] using s4 False Raises once
        by (simp add: Let_def fr cleanup_spinner_task_field twice)
    next
      case CancelledError
      show ?thesis
        unfolding body streamed_def [symmetric] using s4 False CancelledError once
        by (simp add: Let_def)
    qed
  qed
qed

text \<open>
  Claim C8 says that the spinner task of an attempt is cancelled and awaited on every way
  out. \<open>attempt_body_task_log\<close> shows what the code does with the spinner enabled: the task
  is created and cancelled in every attempt, and awaited exactly when no truthy partial
  result was streamed. Lines 89 to 91 cancel the task at the first truthy partial result
  and drop the handle, so \<open>cleanup_spinner_task\<close> in the \<open>finally\<close> clause gets \<open>None\<close>
  and awaits nothing. Here a run streams one partial result and succeeds: the task is
  created and cancelled, and never awaited.
\<close>

theorem spinner_task_not_awaited_after_partial_result:
  "fst (run_agent_review (\<lambda>_. None)
      (\<lambda>_. \<lparr>items = [PartialResult True],
            ending = Returns \<lparr>summary = ''ok'', severity = Low, issues = []\<rparr> []\<rparr>)
      ''<x/>'' ''x'' ''a.py'' None (init_state True False))
     = Returned \<lparr>summary = ''ok'', severity = Low, issues = []\<rparr>
   \<and> task_log (snd (run_agent_review (\<lambda>_. None)
      (\<lambda>_. \<lparr>items = [PartialResult True],
            ending = Returns \<lparr>summary = ''ok'', severity = Low, issues = []\<rparr> []\<rparr>)
      ''<x/>'' ''x'' ''a.py'' None (init_state True False)))
     = [CreateTask 0, CancelTask 0]
   \<and> \<not> task_done (snd (run_agent_review (\<lambda>_. None)
      (\<lambda>_. \<lparr>items = [PartialResult True],
            ending = Returns \<lparr>summary = ''ok'', severity = Low, issues = []\<rparr> []\<rparr>)
      ''<x/>'' ''x'' ''a.py'' None (init_state True False))) 0"
proof -
  let ?r = "\<lparr>summary = ''ok'', severity = Low, issues = []\<rparr>"
  let ?ag = "\<lambda>_::nat. \<lparr>items = [PartialResult True], ending = Returns ?r []\<rparr>"
  let ?s4 = "review_prelude ''<x/>'' ''x'' ''a.py'' None (init_state True False)"
  have ex: "fst (attempt_body (\<lambda>_. None) (?ag 0) ''a.py'' max_retries 0 ?s4) = Exit (Returned ?r)"
    by (simp add: attempt_body_fst)
  have run: "run_agent_review (\<lambda>_. None) ?ag ''<x/>'' ''x'' ''a.py'' None (init_state True False)
      = (Returned ?r, snd (attempt_body (\<lambda>_. None) (?ag 0) ''a.py'' max_retries 0 ?s4))"
    unfolding run_agent_review_def
    by (rule retry_loop_exit [OF _ ex]) (simp add: max_retries_def)
  have pre: "spinner_enabled ?s4" "task_log ?s4 = []"
    by (simp_all add: review_prelude_def init_state_def register_def write_entry_def)
  have "task_log (snd (attempt_body (\<lambda>_. None) (?ag 0) ''a.py'' max_retries 0 ?s4))
      = [CreateTask 0, CancelTask 0]"
    using attempt_body_task_log [of ?s4 0 "\<lambda>_. None" "?ag 0" "''a.py''" max_retries] pre
    by simp
  then show ?thesis
    unfolding run by (simp add: task_done_def)
qed

section \<open>Proofs: one file and the cache\<close>

lemma cache_puts_frame:
  "cache_puts (emit_status st s) = cache_puts s"
  "cache_puts (write_entry en s) = cache_puts s"
  "cache_puts (on_first_result s) = cache_puts s"
  "cache_puts (cleanup_spinner_task t s) = cache_puts s"
  "cache_puts (unregister fp s) = cache_puts s"
  "cache_puts (register fp rid s) = cache_puts s"
  "cache_puts (create_task a s) = cache_puts s"
  by (simp_all add: emit_status_def write_entry_def on_first_result_def Let_def cancel_task_def
      spinner_stop_def cleanup_spinner_task_def await_task_def unregister_def register_def
      create_task_def split: option.splits)

lemma cache_puts_handle_event: "cache_puts (handle_event jl e s) = cache_puts s"
  by (induction jl e s rule: handle_event.induct)
     (simp_all add: cache_puts_frame split: option.splits)

lemma cache_puts_stream_fold:
  "cache_puts (snd (fold (stream_step jl) its p)) = cache_puts (snd p)"
proof (induction its arbitrary: p)
  case Nil
  show ?case by simp
next
  case (Cons it its)
  obtain rr s where p: "p = (rr, s)" by (cases p)
  have "cache_puts (snd (stream_step jl it p)) = cache_puts (snd p)"
    using p by (cases it) (simp_all add: handle_counted_def cache_puts_handle_event cache_puts_frame)
  then show ?case using Cons.IH by simp
qed

lemma cache_puts_attempt_body:
  "cache_puts (snd (attempt_body jl att fp mr a s)) = cache_puts s"
  by (simp add: attempt_body_def Let_def cache_puts_frame cache_puts_stream_fold
      split: ending.splits)

lemma cache_puts_run:
  "cache_puts (snd (run_agent_review jl ag xml code fp rid s)) = cache_puts s"
proof -
  have "cache_puts (review_prelude xml code fp rid s) = cache_puts s"
    by (simp add: review_prelude_def Let_def cache_puts_frame)
  moreover have "cache_puts (snd (retry_loop jl ag fp max_retries 0 (review_prelude xml code fp rid s)))
      = cache_puts (review_prelude xml code fp rid s)"
    by (rule retry_loop_preserves [where P = "\<lambda>u. cache_puts u = cache_puts (review_prelude xml code fp rid s)"])
       (simp_all add: cache_puts_attempt_body)
  ultimately show ?thesis by (simp add: run_agent_review_def)
qed

lemma agent_calls_run:
  "agent_calls s < agent_calls (snd (run_agent_review jl ag xml code fp rid s))"
  using run_agent_review_trace [of jl ag fp s xml code rid s] by auto

text \<open>
  Claim C6. When caching is enabled and the lookup hits, \<open>_review_single_file\<close> returns the
  stored result with the state as it was: the agent is not invoked, so no attempt is made,
  no event is handled and nothing is written on the debug writer. And \<open>cache_review\<close> is
  called only after a run of the agent that returned a fresh result, once, with that
  result: otherwise the calls of \<open>cache_review\<close> are as they were.
\<close>

theorem cache_hit_short_circuits:
  "(\<not> no_cache opts \<and> enable_cache opts \<and> prologue env = None \<and> packed_context env = Inr xml
      \<and> cached_data env = Some r \<longrightarrow>
      review_single_file opts env s = (JobReturned (Some (file_path env, r)), s))
   \<and> (cache_puts (snd (review_single_file opts env s)) = cache_puts s
       \<or> (\<exists>r' xml'. prologue env = None \<and> packed_context env = Inr xml'
             \<and> \<not> no_cache opts \<and> enable_cache opts \<and> cached_data env = None
             \<and> fst (run_agent_review (json_loads env) (attempts env) xml' (extracted env)
                      (file_path env) (Some (review_id env)) s) = Returned r'
             \<and> fst (review_single_file opts env s) = JobReturned (Some (file_path env, r'))
             \<and> cache_puts (snd (review_single_file opts env s))
                 = cache_puts s @ [(file_path env, r', model_name opts)]
             \<and> agent_calls s < agent_calls (snd (review_single_file opts env s))))"
proof (intro conjI impI)
  assume "\<not> no_cache opts \<and> enable_cache opts \<and> prologue env = None \<and> packed_context env = Inr xml
      \<and> cached_data env = Some r"
  then show "review_single_file opts env s = (JobReturned (Some (file_path env, r)), s)"
    by (simp add: review_single_file_def)
next
  show "cache_puts (snd (review_single_file opts env s)) = cache_puts s
       \<or> (\<exists>r' xml'. prologue env = None \<and> packed_context env = Inr xml'
             \<and> \<not> no_cache opts \<and> enable_cache opts \<and> cached_data env = None
             \<and> fst (run_agent_review (json_loads env) (attempts env) xml' (extracted env)
                      (file_path env) (Some (review_id env)) s) = Returned r'
             \<and> fst (review_single_file opts env s) = JobReturned (Some (file_path env, r'))
             \<and> cache_puts (snd (review_single_file opts env s))
                 = cache_puts s @ [(file_path env, r', model_name opts)]
             \<and> agent_calls s < agent_calls (snd (review_single_file opts env s)))"
  proof (cases "prologue env")
    case (Some e)
    then show ?thesis by (simp add: review_single_file_def)
  next
    case None
    show ?thesis
    proof (cases "packed_context env")
      case (Inl e)
      then show ?thesis using None by (simp add: review_single_file_def)
    next
      case (Inr xml')
      let ?R = "run_agent_review (json_loads env) (attempts env) xml' (extracted env)
                      (file_path env) (Some (review_id env)) s"
      obtain x s' where R: "?R = (x, s')" by (cases ?R)
      have puts: "cache_puts s' = cache_puts s"
        using cache_puts_run [of "json_loads env" "attempts env" xml' "extracted env"
            "file_path env" "Some (review_id env)" s] R by simp
      have calls: "agent_calls s < agent_calls s'"
        using agent_calls_run [of s "json_loads env" "attempts env" xml' "extracted env"
            "file_path env" "Some (review_id env)"] R by simp
      show ?thesis
      proof (cases "\<not> no_cache opts \<and> enable_cache opts")
        case False
        then show ?thesis
          using None Inr R puts
          by (cases x) (auto simp: review_single_file_def)
      next
        case True
        show ?thesis
        proof (cases "cached_data env")
          case (Some r0)
          then show ?thesis using None Inr True by (simp add: review_single_file_def)
        next
          case no_hit: None
          show ?thesis
            using None Inr True no_hit R puts calls
            by (cases x) (auto simp: review_single_file_def cache_review_def)
        qed
      qed
    qed
  qed
qed

section \<open>Proofs: the batch\<close>

lemma run_schedule_append:
  "run_schedule jobs (xs @ ys) b =
     (case run_schedule jobs xs b of
        None \<Rightarrow> None
      | Some (Aborted c) \<Rightarrow> Some (Aborted c)
      | Some (Running b') \<Rightarrow> run_schedule jobs ys b')"
  by (induction xs arbitrary: b) (auto split: option.splits batch_status.splits)

lemma sched_step_limit:
  assumes "within_limit k b" and "sched_step jobs ev b = Some (Running b')"
  shows "within_limit k b'"
proof (cases ev)
  case (Acquire i)
  then show ?thesis
    using assms by (auto simp: within_limit_def split: if_splits)
next
  case (Complete i)
  have mem: "i \<in> set (in_flight b)"
    using assms(2) Complete by (auto split: if_splits)
  have d: "distinct (in_flight b)" using assms(1) by (simp add: within_limit_def)
  obtain n where n: "length (in_flight b) = Suc n"
    using mem by (cases "in_flight b") auto
  have "length (removeAll i (in_flight b)) = n"
    using d mem n by (simp add: distinct_remove1_removeAll [symmetric] length_remove1)
  moreover have "in_flight b' = removeAll i (in_flight b) \<and> sem_value b' = sem_value b + 1"
    using assms(2) Complete mem by (auto simp: Let_def split: job_result.splits)
  ultimately show ?thesis
    using assms(1) d n by (simp add: within_limit_def distinct_removeAll)
qed

lemma run_schedule_limit:
  "within_limit k b \<Longrightarrow> run_schedule jobs sched b = Some (Running b') \<Longrightarrow> within_limit k b'"
proof (induction sched arbitrary: b)
  case Nil
  then show ?case by simp
next
  case (Cons ev evs)
  then show ?case
    by (auto split: option.splits batch_status.splits dest: sched_step_limit)
qed

lemma sched_step_slots:
  assumes "sched_step jobs ev b = Some (Running b')"
  shows "length (slots b') = length (slots b)
    \<and> (\<forall>i<length (slots b). slots b' ! i = slots b ! i
          \<or> (slots b' ! i = Some (jobs ! i) \<and> (\<forall>c. jobs ! i \<noteq> JobExit c)))"
proof (cases ev)
  case (Acquire i)
  then show ?thesis using assms by (auto split: if_splits)
next
  case (Complete i)
  have noexit: "\<forall>c. jobs ! i \<noteq> JobExit c"
    using assms Complete by (auto simp: Let_def split: if_splits job_result.splits)
  have upd: "slots b' = (slots b)[i := Some (jobs ! i)]"
    using assms Complete by (auto simp: Let_def split: if_splits job_result.splits)
  show ?thesis
  proof (intro conjI allI impI)
    show "length (slots b') = length (slots b)" by (simp add: upd)
  next
    fix j assume "j < length (slots b)"
    then show "slots b' ! j = slots b ! j
          \<or> (slots b' ! j = Some (jobs ! j) \<and> (\<forall>c. jobs ! j \<noteq> JobExit c))"
      using noexit by (cases "j = i") (simp_all add: upd)
  qed
qed

lemma run_schedule_slots:
  "run_schedule jobs sched b = Some (Running b') \<Longrightarrow>
   length (slots b') = length (slots b)
    \<and> (\<forall>i<length (slots b). slots b' ! i = slots b ! i
          \<or> (slots b' ! i = Some (jobs ! i) \<and> (\<forall>c. jobs ! i \<noteq> JobExit c)))"
proof (induction sched arbitrary: b)
  case Nil
  then show ?case by simp
next
  case (Cons ev evs)
  then obtain b1 where b1: "sched_step jobs ev b = Some (Running b1)"
    "run_schedule jobs evs b1 = Some (Running b')"
    by (auto split: option.splits batch_status.splits)
  note one = sched_step_slots [OF b1(1)] and rest = Cons.IH [OF b1(2)]
  show ?case
  proof (intro conjI allI impI)
    show "length (slots b') = length (slots b)" using one rest by simp
  next
    fix i assume i: "i < length (slots b)"
    then have "slots b1 ! i = slots b ! i
        \<or> (slots b1 ! i = Some (jobs ! i) \<and> (\<forall>c. jobs ! i \<noteq> JobExit c))"
      using one by blast
    moreover have "slots b' ! i = slots b1 ! i
        \<or> (slots b' ! i = Some (jobs ! i) \<and> (\<forall>c. jobs ! i \<noteq> JobExit c))"
      using rest one i by simp
    ultimately show "slots b' ! i = slots b ! i
          \<or> (slots b' ! i = Some (jobs ! i) \<and> (\<forall>c. jobs ! i \<noteq> JobExit c))"
      by metis
  qed
qed

lemma sched_step_in_flight:
  "set (in_flight b) \<subseteq> {..<length jobs} \<Longrightarrow> sched_step jobs ev b = Some (Running b') \<Longrightarrow>
   set (in_flight b') \<subseteq> {..<length jobs}"
  by (cases ev) (auto simp: Let_def split: if_splits job_result.splits)

lemma aborted_has_exit:
  "set (in_flight b) \<subseteq> {..<length jobs} \<Longrightarrow> run_schedule jobs sched b = Some (Aborted c) \<Longrightarrow>
   JobExit c \<in> set jobs"
proof (induction sched arbitrary: b)
  case Nil
  then show ?case by simp
next
  case (Cons ev evs)
  show ?case
  proof (cases "sched_step jobs ev b")
    case None
    then show ?thesis using Cons.prems(2) by simp
  next
    case (Some st)
    show ?thesis
    proof (cases st)
      case (Running b1)
      then show ?thesis
        using Cons.IH [of b1] Cons.prems Some sched_step_in_flight [of b jobs ev b1] by simp
    next
      case (Aborted c')
      then have step: "sched_step jobs ev b = Some (Aborted c)"
        using Cons.prems(2) Some by simp
      then obtain i where i: "ev = Complete i" "i \<in> set (in_flight b)" "jobs ! i = JobExit c"
        by (cases ev) (auto simp: Let_def split: if_splits job_result.splits)
      then have "i < length jobs" using Cons.prems(1) by auto
      then show ?thesis using i(3) by (metis nth_mem)
    qed
  qed
qed

lemma collect_filter: "collect rs = filter (\<lambda>r. \<not> failed r) rs"
  by (induction rs rule: collect.induct) simp_all

text \<open>
  A cancelled job is outside these two kinds: its \<open>CancelledError\<close> is not an \<open>Exception\<close>,
  so line 427 lets it through and line 431 appends it.
\<close>

lemma cancelled_result_is_kept: "collect (JobCancelled # rs) = JobCancelled # collect rs"
  by simp

lemma all_results_are_jobs:
  assumes "review_batch opts jobs sched = AllResults rs"
  shows "(\<forall>c. JobExit c \<notin> set jobs) \<and> rs = collect jobs"
proof -
  define k where "k = concurrency_limit (length jobs) (max_concurrent_reviews opts)"
  obtain b where b: "run_schedule jobs sched (init_batch (nat k) (length jobs)) = Some (Running b)"
    "list_all (\<lambda>r. r \<noteq> None) (slots b)" "rs = collect (map the (slots b))"
    using assms
    by (auto simp: review_batch_def Let_def k_def
        split: if_splits option.splits batch_status.splits)
  from run_schedule_slots [OF b(1)]
  have len: "length (slots b) = length jobs"
    and each: "\<forall>i<length jobs. slots b ! i = None
          \<or> (slots b ! i = Some (jobs ! i) \<and> (\<forall>c. jobs ! i \<noteq> JobExit c))"
    by (simp_all add: init_batch_def)
  have filled: "\<forall>i<length jobs. slots b ! i \<noteq> None"
    using b(2) len by (simp add: list_all_length)
  have slot: "\<forall>i<length jobs. slots b ! i = Some (jobs ! i) \<and> (\<forall>c. jobs ! i \<noteq> JobExit c)"
    using each filled by blast
  have "map the (slots b) = jobs"
    using len slot by (intro nth_equalityI) simp_all
  moreover have "\<forall>c. JobExit c \<notin> set jobs"
    using slot by (auto simp: in_set_conv_nth)
  ultimately show ?thesis using b(3) by simp
qed

lemma sys_exit_from_job:
  assumes "review_batch opts jobs sched = SysExit c"
  shows "JobExit c \<in> set jobs"
proof -
  define k where "k = concurrency_limit (length jobs) (max_concurrent_reviews opts)"
  have "run_schedule jobs sched (init_batch (nat k) (length jobs)) = Some (Aborted c)"
    using assms
    by (auto simp: review_batch_def Let_def k_def
        split: if_splits option.splits batch_status.splits)
  then show ?thesis
    by (rule aborted_has_exit [rotated]) (simp add: init_batch_def)
qed

lemma handle_exception_config:
  "handle_exception e = (if is_configuration_error e then JobExit 1 else JobReturned None)"
  by (cases "exn_class e") (simp_all add: handle_exception_def is_configuration_error_def)

lemma exit_aborts:
  assumes "run_schedule jobs pre b0 = Some (Running b)" and "i \<in> set (in_flight b)"
    and "jobs ! i = JobExit c"
  shows "run_schedule jobs (pre @ Complete i # post) b0 = Some (Aborted c)"
  using assms by (simp add: run_schedule_append Let_def)

lemma failure_continues:
  assumes "run_schedule jobs pre b0 = Some (Running b)" and "i \<in> set (in_flight b)"
    and "failed (jobs ! i)"
  shows "\<exists>b'. run_schedule jobs (pre @ [Complete i]) b0 = Some (Running b')
      \<and> (\<forall>j. j \<noteq> i \<longrightarrow> slots b' ! j = slots b ! j)
      \<and> in_flight b' = removeAll i (in_flight b) \<and> sem_value b' = Suc (sem_value b)"
proof -
  from assms(3) have "jobs ! i = JobReturned None \<or> (\<exists>e. jobs ! i = JobRaised e)"
    by (cases "jobs ! i" rule: failed.cases) simp_all
  then show ?thesis
    using assms(1,2) by (auto simp: run_schedule_append Let_def)
qed

section \<open>Proofs: the results of a batch\<close>

theorem cache_hit_short_circuits_witness:
  "review_single_file example_opts
      ((env_ending ''a.py'' CancelledError)\<lparr>cached_data := Some ok_review\<rparr>)
      (init_state True True)
     = (JobReturned (Some (''a.py'', ok_review)), init_state True True)
   \<and> agent_calls (snd (review_single_file example_opts
        ((env_ending ''a.py'' CancelledError)\<lparr>cached_data := Some ok_review\<rparr>)
        (init_state True True))) = 0
   \<and> events_handled (snd (review_single_file example_opts
        ((env_ending ''a.py'' CancelledError)\<lparr>cached_data := Some ok_review\<rparr>)
        (init_state True True))) = 0
   \<and> audit (snd (review_single_file example_opts
        ((env_ending ''a.py'' CancelledError)\<lparr>cached_data := Some ok_review\<rparr>)
        (init_state True True))) = []"
proof -
  let ?env = "(env_ending ''a.py'' CancelledError)\<lparr>cached_data := Some ok_review\<rparr>"
  have "review_single_file example_opts ?env (init_state True True)
     = (JobReturned (Some (file_path ?env, ok_review)), init_state True True)"
    using cache_hit_short_circuits [of example_opts ?env "''<x/>''" ok_review "init_state True True"]
    by (simp add: example_opts_def env_ending_def)
  then show ?thesis by (simp add: env_ending_def init_state_def)
qed

text \<open>The result of a job does not depend on the state it starts from.\<close>

lemma run_result_independent:
  "fst (run_agent_review jl ag xml code fp rid s) = fst (run_agent_review jl ag xml code fp rid s')"
proof -
  obtain k where k: "\<forall>j<k. fst (attempt_body jl (ag j) fp max_retries j s) = Continue"
    "fst (attempt_body jl (ag k) fp max_retries k s)
       = Exit (fst (run_agent_review jl ag xml code fp rid s))"
    using run_agent_review_trace [of jl ag fp s xml code rid s] by blast
  obtain k' where k': "\<forall>j<k'. fst (attempt_body jl (ag j) fp max_retries j s) = Continue"
    "fst (attempt_body jl (ag k') fp max_retries k' s)
       = Exit (fst (run_agent_review jl ag xml code fp rid s'))"
    using run_agent_review_trace [of jl ag fp s xml code rid s'] by blast
  have "\<not> k < k'" using k(2) k'(1) by auto
  moreover have "\<not> k' < k" using k'(2) k(1) by auto
  ultimately have "k = k'" by arith
  then show ?thesis using k(2) k'(2) by simp
qed

lemma review_single_file_fst:
  "fst (review_single_file opts env s) =
     (case prologue env of
        Some e \<Rightarrow> JobRaised e
      | None \<Rightarrow>
          (case packed_context env of
             Inl e \<Rightarrow> handle_exception e
           | Inr xml \<Rightarrow>
               (case (if \<not> no_cache opts \<and> enable_cache opts then cached_data env else None) of
                  Some r \<Rightarrow> JobReturned (Some (file_path env, r))
                | None \<Rightarrow>
                    job_of_exit (file_path env)
                      (fst (run_agent_review (json_loads env) (attempts env) xml (extracted env)
                              (file_path env) (Some (review_id env)) s)))))"
proof (cases "prologue env")
  case (Some e)
  then show ?thesis by (simp add: review_single_file_def)
next
  case None
  show ?thesis
  proof (cases "packed_context env")
    case (Inl e)
    then show ?thesis using None by (simp add: review_single_file_def)
  next
    case (Inr xml)
    obtain x s' where R: "run_agent_review (json_loads env) (attempts env) xml (extracted env)
                              (file_path env) (Some (review_id env)) s = (x, s')"
      by (cases "run_agent_review (json_loads env) (attempts env) xml (extracted env)
                              (file_path env) (Some (review_id env)) s")
    show ?thesis
    proof (cases "if \<not> no_cache opts \<and> enable_cache opts then cached_data env else None")
      case (Some r)
      then show ?thesis
        using None Inr by (simp add: review_single_file_def Let_def)
    next
      case miss: None
      show ?thesis
        using None Inr miss R
        by (cases x) (simp_all add: review_single_file_def Let_def job_of_exit_def)
    qed
  qed
qed

lemma job_result_independent:
  "fst (review_single_file opts env s) = fst (review_single_file opts env s')"
proof -
  have "\<And>xml. fst (run_agent_review (json_loads env) (attempts env) xml (extracted env)
            (file_path env) (Some (review_id env)) s)
       = fst (run_agent_review (json_loads env) (attempts env) xml (extracted env)
            (file_path env) (Some (review_id env)) s')"
    by (rule run_result_independent)
  then show ?thesis
    by (simp only: review_single_file_fst)
qed

lemma success_of_handle_exception: "success_of (handle_exception e) = None"
  by (cases "exn_class e") (simp_all add: handle_exception_def)

lemma success_of_job_of_exit:
  "success_of (job_of_exit path x) = Some (f, r) \<Longrightarrow> f = path"
  by (cases x) (simp_all add: job_of_exit_def success_of_handle_exception)

lemma success_file_path:
  assumes "success_of (fst (review_single_file opts env s)) = Some (f, r)"
  shows "f = file_path env"
proof (cases "prologue env")
  case (Some e)
  then show ?thesis using assms by (simp add: review_single_file_fst)
next
  case None
  show ?thesis
  proof (cases "packed_context env")
    case (Inl e)
    then show ?thesis
      using assms None by (simp add: review_single_file_fst success_of_handle_exception)
  next
    case (Inr xml)
    show ?thesis
    proof (cases "if \<not> no_cache opts \<and> enable_cache opts then cached_data env else None")
      case (Some r0)
      then show ?thesis using assms None Inr by (simp add: review_single_file_fst)
    next
      case miss: None
      then show ?thesis
        using assms None Inr success_of_job_of_exit
        by (simp add: review_single_file_fst)
    qed
  qed
qed

lemma success_review_of:
  "success_of (fst (review_single_file opts env (init_state False False)))
     = map_option (\<lambda>r. (file_path env, r)) (review_of opts env)"
proof (cases "success_of (fst (review_single_file opts env (init_state False False)))")
  case None
  then show ?thesis by (simp add: review_of_def)
next
  case (Some p)
  obtain f r where p: "p = (f, r)" by (cases p)
  then have "f = file_path env" using Some success_file_path by blast
  then show ?thesis using Some p by (simp add: review_of_def)
qed

lemma collect_job_results:
  assumes "\<forall>env \<in> set envs. J env \<noteq> JobCancelled \<and> (\<forall>c. J env \<noteq> JobExit c)"
  shows "collect (map J envs)
     = map (\<lambda>p. JobReturned (Some p)) (List.map_filter (\<lambda>env. success_of (J env)) envs)"
  using assms
proof (induction envs)
  case Nil
  show ?case by (simp add: List.map_filter_simps)
next
  case (Cons env envs)
  then have IH: "collect (map J envs)
     = map (\<lambda>p. JobReturned (Some p)) (List.map_filter (\<lambda>env. success_of (J env)) envs)"
    by simp
  have ok: "J env \<noteq> JobCancelled" "\<forall>c. J env \<noteq> JobExit c"
    using Cons.prems by simp_all
  show ?case
  proof (cases "J env")
    case (JobReturned p)
    then show ?thesis using IH by (cases p) (simp_all add: List.map_filter_simps)
  next
    case (JobRaised e)
    then show ?thesis using IH by (simp add: List.map_filter_simps)
  next
    case JobCancelled
    then show ?thesis using ok by simp
  next
    case (JobExit c)
    then show ?thesis using ok by simp
  qed
qed

text \<open>
  Claim C4. Take a batch whose jobs each succeeded or failed (none was cancelled, and no
  configuration error ended the process), under any schedule that lets every job finish.
  Then \<open>all_results\<close> holds exactly the pairs of file and review of the jobs that
  succeeded, in the order of the input files, whatever the order in which the jobs
  finished.
\<close>

theorem successes_in_submission_order:
  assumes "review_batch opts (job_results opts envs) sched = AllResults rs"
    and "JobCancelled \<notin> set (job_results opts envs)"
  shows "rs = map (\<lambda>p. JobReturned (Some p))
           (List.map_filter (\<lambda>env. map_option (\<lambda>r. (file_path env, r)) (review_of opts env)) envs)"
proof -
  let ?J = "\<lambda>env. fst (review_single_file opts env (init_state False False))"
  have jobs: "job_results opts envs = map ?J envs" by (simp add: job_results_def)
  from all_results_are_jobs [OF assms(1)]
  have noexit: "\<forall>c. JobExit c \<notin> set (job_results opts envs)"
    and rs: "rs = collect (job_results opts envs)" by simp_all
  have "\<forall>env \<in> set envs. ?J env \<noteq> JobCancelled \<and> (\<forall>c. ?J env \<noteq> JobExit c)"
  proof (intro ballI conjI allI)
    fix env assume "env \<in> set envs"
    then have mem: "?J env \<in> set (job_results opts envs)" by (simp add: jobs)
    show "?J env \<noteq> JobCancelled"
    proof
      assume "?J env = JobCancelled"
      then show False using mem assms(2) by simp
    qed
    fix c show "?J env \<noteq> JobExit c"
    proof
      assume "?J env = JobExit c"
      then show False using mem noexit by simp
    qed
  qed
  from collect_job_results [of envs ?J, OF this]
  have "collect (map ?J envs) = map (\<lambda>p. JobReturned (Some p))
          (List.map_filter (\<lambda>env. success_of (?J env)) envs)" .
  then show ?thesis
    by (simp only: rs jobs success_review_of)
qed

lemma job_first_attempt:
  assumes "prologue env = None" and "packed_context env = Inr xml"
    and "cached_data env = None"
    and "fst (attempt_body (json_loads env) (attempts env 0) (file_path env) max_retries 0 s) = Exit x"
  shows "fst (review_single_file opts env s) = job_of_exit (file_path env) x"
proof -
  have "fst (run_agent_review (json_loads env) (attempts env) xml (extracted env)
                      (file_path env) (Some (review_id env)) s) = x"
    using run_stops_at [of 0 "attempts env" "json_loads env" "file_path env" s x xml
        "extracted env" "Some (review_id env)"] assms(4)
    by simp
  then show ?thesis
    using assms(1,2,3) by (simp add: review_single_file_fst)
qed

lemma example_jobs:
  "job_results example_opts
     [env_ending ''a.py'' (Returns ok_review []),
      env_ending ''b.py'' (Raises (Exn OtherException ''denied'')),
      env_ending ''c.py'' (Returns ok_review [])]
   = [JobReturned (Some (''a.py'', ok_review)), JobReturned None,
      JobReturned (Some (''c.py'', ok_review))]"
proof -
  have a: "\<And>p. fst (review_single_file example_opts (env_ending p (Returns ok_review []))
              (init_state False False)) = JobReturned (Some (p, ok_review))"
    using job_first_attempt [of "env_ending p (Returns ok_review [])" "''<x/>''"
        "init_state False False" "Returned ok_review" example_opts for p]
    by (simp add: env_ending_def attempt_body_fst job_of_exit_def)
  have "\<not> is_rate_limit ''denied''"
    using not_transient_denied is_rate_limit_spec [of "Exn OtherException ''denied''"] by simp
  then have b: "fst (review_single_file example_opts
              (env_ending ''b.py'' (Raises (Exn OtherException ''denied'')))
              (init_state False False)) = JobReturned None"
    using job_first_attempt [of "env_ending ''b.py'' (Raises (Exn OtherException ''denied''))"
        "''<x/>''" "init_state False False" "Raised (Exn OtherException ''denied'')" example_opts]
    by (simp add: env_ending_def attempt_body_fst job_of_exit_def handle_exception_def)
  show ?thesis by (simp add: job_results_def a b)
qed

lemma example_schedule:
  "review_batch example_opts
     [JobReturned (Some (''a.py'', ok_review)), JobReturned None,
      JobReturned (Some (''c.py'', ok_review))]
     [Acquire 2, Acquire 0, Acquire 1, Complete 1, Complete 2, Complete 0]
   = AllResults [JobReturned (Some (''a.py'', ok_review)), JobReturned (Some (''c.py'', ok_review))]"
  by (simp add: review_batch_def concurrency_limit_def example_opts_def init_batch_def Let_def
      numeral_3_eq_3)

theorem successes_in_submission_order_witness:
  "review_batch example_opts
     (job_results example_opts
        [env_ending ''a.py'' (Returns ok_review []),
         env_ending ''b.py'' (Raises (Exn OtherException ''denied'')),
         env_ending ''c.py'' (Returns ok_review [])])
     [Acquire 2, Acquire 0, Acquire 1, Complete 1, Complete 2, Complete 0]
   = AllResults [JobReturned (Some (''a.py'', ok_review)), JobReturned (Some (''c.py'', ok_review))]
   \<and> List.map_filter (\<lambda>env. map_option (\<lambda>r. (file_path env, r)) (review_of example_opts env))
        [env_ending ''a.py'' (Returns ok_review []),
         env_ending ''b.py'' (Raises (Exn OtherException ''denied'')),
         env_ending ''c.py'' (Returns ok_review [])]
     = [(''a.py'', ok_review), (''c.py'', ok_review)]"
proof -
  let ?envs = "[env_ending ''a.py'' (Returns ok_review []),
         env_ending ''b.py'' (Raises (Exn OtherException ''denied'')),
         env_ending ''c.py'' (Returns ok_review [])]"
  let ?sched = "[Acquire 2, Acquire 0, Acquire 1, Complete 1, Complete 2, Complete 0]"
  let ?rs = "[JobReturned (Some (''a.py'', ok_review)), JobReturned (Some (''c.py'', ok_review))]"
  have run: "review_batch example_opts (job_results example_opts ?envs) ?sched = AllResults ?rs"
    by (simp only: example_jobs example_schedule)
  have nc: "JobCancelled \<notin> set (job_results example_opts ?envs)"
    by (simp add: example_jobs)
  have "?rs = map (\<lambda>p. JobReturned (Some p))
           (List.map_filter (\<lambda>env. map_option (\<lambda>r. (file_path env, r)) (review_of example_opts env))
              ?envs)"
    by (rule successes_in_submission_order [OF run nc])
  then have "map (\<lambda>p. JobReturned (Some p))
           (List.map_filter (\<lambda>env. map_option (\<lambda>r. (file_path env, r)) (review_of example_opts env))
              ?envs) = map (\<lambda>p. JobReturned (Some p)) [(''a.py'', ok_review), (''c.py'', ok_review)]"
    by simp
  then have "List.map_filter (\<lambda>env. map_option (\<lambda>r. (file_path env, r)) (review_of example_opts env))
              ?envs = [(''a.py'', ok_review), (''c.py'', ok_review)]"
    by (rule map_injective) (simp add: inj_on_def)
  then show ?thesis using run by simp
qed

text \<open>Run one after the other, the jobs of a batch all finish, if none ends the process.\<close>

lemma sequential_prefix:
  assumes "0 < k" and "\<forall>c. JobExit c \<notin> set jobs" and "m \<le> length jobs"
  shows "run_schedule jobs (sequential m) (init_batch k (length jobs))
     = Some (Running \<lparr>sem_value = k, in_flight = [],
          slots = map Some (take m jobs) @ replicate (length jobs - m) None\<rparr>)"
  using assms(3)
proof (induction m)
  case 0
  show ?case by (simp add: sequential_def init_batch_def)
next
  case (Suc m)
  let ?b = "\<lparr>sem_value = k, in_flight = [],
          slots = map Some (take m jobs) @ replicate (length jobs - m) None\<rparr>"
  have m: "m < length jobs" using Suc.prems by simp
  have seq: "sequential (Suc m) = sequential m @ [Acquire m, Complete m]"
    by (simp add: sequential_def)
  have pre: "run_schedule jobs (sequential m) (init_batch k (length jobs)) = Some (Running ?b)"
    using Suc.IH m by simp
  have free: "slots ?b ! m = None"
    using m by (simp add: nth_append)
  have noexit: "\<forall>c. jobs ! m \<noteq> JobExit c"
    using assms(2) m by (metis nth_mem)
  have upd: "(map Some (take m jobs) @ replicate (length jobs - m) None)[m := Some (jobs ! m)]
      = map Some (take (Suc m) jobs) @ replicate (length jobs - Suc m) None"
  proof (rule nth_equalityI)
    show "length ((map Some (take m jobs) @ replicate (length jobs - m) None)[m := Some (jobs ! m)])
        = length (map Some (take (Suc m) jobs) @ replicate (length jobs - Suc m) None)"
      using m by simp
  next
    fix i
    assume "i < length ((map Some (take m jobs) @ replicate (length jobs - m) None)[m := Some (jobs ! m)])"
    then have i: "i < length jobs" using m by simp
    consider "i < m" | "i = m" | "m < i" by arith
    then show "(map Some (take m jobs) @ replicate (length jobs - m) None)[m := Some (jobs ! m)] ! i
        = (map Some (take (Suc m) jobs) @ replicate (length jobs - Suc m) None) ! i"
    proof cases
      case 1
      then show ?thesis using m i by (simp add: nth_append nth_list_update)
    next
      case 2
      then show ?thesis using m i by (simp add: nth_append nth_list_update)
    next
      case 3
      then show ?thesis using m i by (simp add: nth_append nth_list_update)
    qed
  qed
  have acq: "sched_step jobs (Acquire m) ?b = Some (Running (?b\<lparr>sem_value := k - 1, in_flight := [m]\<rparr>))"
    using m free assms(1) by simp
  have comp: "sched_step jobs (Complete m) (?b\<lparr>sem_value := k - 1, in_flight := [m]\<rparr>)
      = Some (Running \<lparr>sem_value = k, in_flight = [],
          slots = map Some (take (Suc m) jobs) @ replicate (length jobs - Suc m) None\<rparr>)"
    using noexit assms(1) upd by (cases "jobs ! m") (simp_all add: Let_def)
  show ?case
    unfolding seq run_schedule_append pre using acq comp by simp
qed

lemma sequential_schedule_completes:
  assumes "0 < concurrency_limit (length jobs) (max_concurrent_reviews opts)"
    and "\<forall>c. JobExit c \<notin> set jobs"
  shows "review_batch opts jobs (sequential (length jobs)) = AllResults (collect jobs)"
proof -
  let ?k = "concurrency_limit (length jobs) (max_concurrent_reviews opts)"
  have "0 < nat ?k" using assms(1) by simp
  from sequential_prefix [OF this assms(2), of "length jobs"]
  show ?thesis
    using assms(1) by (simp add: review_batch_def Let_def list_all_iff comp_def)
qed

section \<open>Proofs: failures, exits and the concurrency limit\<close>

text \<open>
  Claim C7. Every exception that \<open>_review_single_file\<close> catches, from the context
  extraction or from the run of the agent, makes the job return \<open>None\<close>, except a
  configuration error (a \<open>RuntimeError\<close> that line 333 recognises), which makes it exit
  with code 1. In the batch, a job that ends with \<open>SystemExit\<close> aborts the whole batch at
  once with that code, whatever would follow; a job that fails leaves the batch running,
  frees its slot and touches no other job's result. So a batch that returns its results
  had no such exit and returns the jobs that did not fail, in order; and a batch that
  exits does so with the code of one of its jobs.
\<close>

theorem config_error_aborts_batch:
  "handle_exception e = (if is_configuration_error e then JobExit 1 else JobReturned None)
   \<and> (prologue env = None \<and> packed_context env = Inl e \<longrightarrow>
        fst (review_single_file opts env s) = handle_exception e)
   \<and> (prologue env = None \<and> packed_context env = Inr xml
        \<and> (no_cache opts \<or> \<not> enable_cache opts \<or> cached_data env = None)
        \<and> fst (run_agent_review (json_loads env) (attempts env) xml (extracted env)
                 (file_path env) (Some (review_id env)) s) = Raised e \<longrightarrow>
        fst (review_single_file opts env s) = handle_exception e)
   \<and> (run_schedule jobs pre start = Some (Running b) \<and> i \<in> set (in_flight b)
        \<and> jobs ! i = JobExit c \<longrightarrow>
        run_schedule jobs (pre @ Complete i # post) start = Some (Aborted c))
   \<and> (run_schedule jobs pre start = Some (Running b) \<and> i \<in> set (in_flight b)
        \<and> failed (jobs ! i) \<longrightarrow>
        (\<exists>b'. run_schedule jobs (pre @ [Complete i]) start = Some (Running b')
           \<and> (\<forall>j. j \<noteq> i \<longrightarrow> slots b' ! j = slots b ! j)
           \<and> in_flight b' = removeAll i (in_flight b) \<and> sem_value b' = Suc (sem_value b)))
   \<and> (review_batch opts jobs sched = AllResults rs \<longrightarrow>
        (\<forall>c'. JobExit c' \<notin> set jobs) \<and> rs = filter (\<lambda>r. \<not> failed r) jobs)
   \<and> (review_batch opts jobs sched = SysExit c \<longrightarrow> JobExit c \<in> set jobs)"
proof (intro conjI impI)
  show "handle_exception e = (if is_configuration_error e then JobExit 1 else JobReturned None)"
    by (rule handle_exception_config)
next
  assume "prologue env = None \<and> packed_context env = Inl e"
  then show "fst (review_single_file opts env s) = handle_exception e"
    by (simp add: review_single_file_fst)
next
  assume "prologue env = None \<and> packed_context env = Inr xml
        \<and> (no_cache opts \<or> \<not> enable_cache opts \<or> cached_data env = None)
        \<and> fst (run_agent_review (json_loads env) (attempts env) xml (extracted env)
                 (file_path env) (Some (review_id env)) s) = Raised e"
  then show "fst (review_single_file opts env s) = handle_exception e"
    by (auto simp: review_single_file_fst job_of_exit_def)
next
  assume "run_schedule jobs pre start = Some (Running b) \<and> i \<in> set (in_flight b)
        \<and> jobs ! i = JobExit c"
  then show "run_schedule jobs (pre @ Complete i # post) start = Some (Aborted c)"
    using exit_aborts by blast
next
  assume "run_schedule jobs pre start = Some (Running b) \<and> i \<in> set (in_flight b)
        \<and> failed (jobs ! i)"
  then show "\<exists>b'. run_schedule jobs (pre @ [Complete i]) start = Some (Running b')
           \<and> (\<forall>j. j \<noteq> i \<longrightarrow> slots b' ! j = slots b ! j)
           \<and> in_flight b' = removeAll i (in_flight b) \<and> sem_value b' = Suc (sem_value b)"
    using failure_continues by blast
next
  assume a: "review_batch opts jobs sched = AllResults rs"
  show "\<forall>c'. JobExit c' \<notin> set jobs"
    using all_results_are_jobs [OF a] by blast
  show "rs = filter (\<lambda>r. \<not> failed r) jobs"
    using all_results_are_jobs [OF a] by (simp add: collect_filter)
next
  assume "review_batch opts jobs sched = SysExit c"
  then show "JobExit c \<in> set jobs" by (rule sys_exit_from_job)
qed

lemma no_keys_is_configuration_error:
  "is_configuration_error (Exn RuntimeError ''No API keys configured'')"
  by (simp add: is_configuration_error_def is_api_key_error_def)

lemma denied_is_no_configuration_error:
  "\<not> is_configuration_error (Exn OtherException ''denied'')"
  by (simp add: is_configuration_error_def)

theorem config_error_aborts_batch_witness:
  "handle_exception (Exn RuntimeError ''No API keys configured'') = JobExit 1
   \<and> fst (review_single_file example_opts
        ((env_ending ''b.py'' CancelledError)
           \<lparr>packed_context := Inl (Exn RuntimeError ''No API keys configured'')\<rparr>)
        (init_state True False)) = JobExit 1
   \<and> run_schedule [JobReturned (Some (''a.py'', ok_review)), JobExit 1, JobReturned None]
        ([Acquire 0, Acquire 1, Acquire 2] @ Complete 1 # [Complete 0])
        (init_batch 3 3) = Some (Aborted 1)
   \<and> (\<exists>b'. run_schedule [JobReturned (Some (''a.py'', ok_review)), JobExit 1, JobReturned None]
        ([Acquire 0, Acquire 1, Acquire 2] @ [Complete 2])
        (init_batch 3 3) = Some (Running b')
        \<and> in_flight b' = [1, 0] \<and> sem_value b' = 1)
   \<and> review_batch example_opts
        [JobReturned (Some (''a.py'', ok_review)), JobExit 1, JobReturned None]
        [Acquire 0, Acquire 1, Acquire 2, Complete 2, Complete 1] = SysExit 1"
proof -
  let ?e = "Exn RuntimeError ''No API keys configured''"
  let ?env = "(env_ending ''b.py'' CancelledError)\<lparr>packed_context := Inl ?e\<rparr>"
  let ?jobs = "[JobReturned (Some (''a.py'', ok_review)), JobExit 1, JobReturned None]"
  let ?pre = "[Acquire 0, Acquire 1, Acquire 2]"
  let ?b = "\<lparr>sem_value = 0, in_flight = [2, 1, 0], slots = [None, None, None]\<rparr>"
  note T = config_error_aborts_batch [where e = ?e and env = ?env and opts = example_opts
      and s = "init_state True False" and jobs = ?jobs and pre = ?pre and start = "init_batch 3 3"
      and b = ?b and c = 1]
  have pre: "run_schedule ?jobs ?pre (init_batch 3 3) = Some (Running ?b)"
    by (simp add: init_batch_def numeral_3_eq_3)
  have c1: "handle_exception ?e = JobExit 1"
    using T [THEN conjunct1] no_keys_is_configuration_error by simp
  have "prologue ?env = None \<and> packed_context ?env = Inl ?e"
    by (simp add: env_ending_def)
  then have c2: "fst (review_single_file example_opts ?env (init_state True False)) = JobExit 1"
    using T [THEN conjunct2, THEN conjunct1] c1 by simp
  have "run_schedule ?jobs ?pre (init_batch 3 3) = Some (Running ?b) \<and> 1 \<in> set (in_flight ?b)
      \<and> ?jobs ! 1 = JobExit 1"
    using pre by simp
  then have c3: "run_schedule ?jobs (?pre @ Complete 1 # [Complete 0]) (init_batch 3 3)
      = Some (Aborted 1)"
    by (rule T [where i = 1 and post = "[Complete 0]",
          THEN conjunct2, THEN conjunct2, THEN conjunct2, THEN conjunct1, rule_format])
  have "run_schedule ?jobs ?pre (init_batch 3 3) = Some (Running ?b) \<and> 2 \<in> set (in_flight ?b)
      \<and> failed (?jobs ! 2)"
    using pre by simp
  then have "\<exists>b'. run_schedule ?jobs (?pre @ [Complete 2]) (init_batch 3 3) = Some (Running b')
           \<and> (\<forall>j. j \<noteq> 2 \<longrightarrow> slots b' ! j = slots ?b ! j)
           \<and> in_flight b' = removeAll 2 (in_flight ?b) \<and> sem_value b' = Suc (sem_value ?b)"
    by (rule T [where i = 2,
          THEN conjunct2, THEN conjunct2, THEN conjunct2, THEN conjunct2, THEN conjunct1,
          rule_format])
  then obtain b' where b': "run_schedule ?jobs (?pre @ [Complete 2]) (init_batch 3 3) = Some (Running b')"
    "in_flight b' = removeAll 2 (in_flight ?b)" "sem_value b' = Suc (sem_value ?b)"
    by blast
  have "in_flight b' = [1, 0]" "sem_value b' = 1"
    using b'(2,3) by simp_all
  then have c4: "\<exists>b'. run_schedule ?jobs (?pre @ [Complete 2]) (init_batch 3 3) = Some (Running b')
        \<and> in_flight b' = [1, 0] \<and> sem_value b' = 1"
    using b'(1) by blast
  have c5: "review_batch example_opts ?jobs
        [Acquire 0, Acquire 1, Acquire 2, Complete 2, Complete 1] = SysExit 1"
    by (simp add: review_batch_def concurrency_limit_def example_opts_def init_batch_def Let_def
        numeral_3_eq_3)
  show ?thesis using c1 c2 c3 c4 c5 by (intro conjI)
qed

text \<open>
  Claim C1 gives the limit for more than five files as
  \<open>max(3, min(configured_max, N / 2))\<close>. Lines 407 to 409 compute
  \<open>min(configured_max, max(3, N // 2))\<close>: with six files and a configured maximum of 2 the
  limit is 2, where the formula of the claim gives 3.
\<close>

theorem limit_formula_counterexample:
  "concurrency_limit 6 2 = 2 \<and> spec_limit 6 2 = 3"
  by (simp add: concurrency_limit_def spec_limit_def)

text \<open>
  Claim C1, amended. The limit is \<open>N\<close> for at most five files, and otherwise
  \<open>min(configured_max, max(3, N div 2))\<close>, which is \<open>min(configured_max, N div 2)\<close>; it
  is the formula of the claim whenever the configured maximum is at least 3. Under every
  schedule, the number of jobs inside the body of \<open>async with semaphore\<close> is at most the
  limit: together with the semaphore's value it is the limit, and no job is inside twice.
  A negative limit makes \<open>asyncio.Semaphore\<close> raise before any job starts.
\<close>

theorem concurrency_bound:
  "(n \<le> 5 \<longrightarrow> concurrency_limit n m = int n)
   \<and> (5 < n \<longrightarrow> concurrency_limit n m = min m (max 3 (int n div 2))
                \<and> concurrency_limit n m = min m (int n div 2))
   \<and> (3 \<le> m \<longrightarrow> concurrency_limit n m = spec_limit n m)
   \<and> (0 \<le> concurrency_limit (length jobs) m'
        \<and> run_schedule jobs sched
             (init_batch (nat (concurrency_limit (length jobs) m')) (length jobs))
           = Some (Running b) \<longrightarrow>
        int (length (in_flight b)) \<le> concurrency_limit (length jobs) m'
        \<and> int (sem_value b) + int (length (in_flight b)) = concurrency_limit (length jobs) m'
        \<and> distinct (in_flight b))
   \<and> (concurrency_limit (length jobs) (max_concurrent_reviews opts) < 0 \<longrightarrow>
        review_batch opts jobs sched' = SemaphoreValueError)"
proof (intro conjI impI)
  assume "concurrency_limit (length jobs) (max_concurrent_reviews opts) < 0"
  then show "review_batch opts jobs sched' = SemaphoreValueError"
    by (simp add: review_batch_def Let_def)
next
  assume "n \<le> 5"
  then show "concurrency_limit n m = int n" by (simp add: concurrency_limit_def)
next
  assume "5 < n"
  then show "concurrency_limit n m = min m (max 3 (int n div 2))"
    by (simp add: concurrency_limit_def)
next
  assume "5 < n"
  then have "3 \<le> int n div 2" by simp
  then show "concurrency_limit n m = min m (int n div 2)"
    using \<open>5 < n\<close> by (simp add: concurrency_limit_def)
next
  assume "3 \<le> m"
  then show "concurrency_limit n m = spec_limit n m"
    by (simp add: concurrency_limit_def spec_limit_def)
next
  assume a: "0 \<le> concurrency_limit (length jobs) m'
        \<and> run_schedule jobs sched
             (init_batch (nat (concurrency_limit (length jobs) m')) (length jobs))
           = Some (Running b)"
  let ?k = "nat (concurrency_limit (length jobs) m')"
  have "within_limit ?k (init_batch ?k (length jobs))"
    by (simp add: within_limit_def init_batch_def)
  then have w: "within_limit ?k b"
    using a run_schedule_limit by blast
  have sum: "int (sem_value b + length (in_flight b)) = concurrency_limit (length jobs) m'"
    using w a by (simp add: within_limit_def)
  show "int (length (in_flight b)) \<le> concurrency_limit (length jobs) m'"
    using sum by arith
  show "int (sem_value b) + int (length (in_flight b)) = concurrency_limit (length jobs) m'"
    using sum by simp
  show "distinct (in_flight b)"
    using w by (simp add: within_limit_def)
qed

theorem concurrency_bound_witness:
  "concurrency_limit 3 10 = 3
   \<and> concurrency_limit 8 10 = 4 \<and> spec_limit 8 10 = 4
   \<and> concurrency_limit 8 3 = 3 \<and> spec_limit 8 3 = 3
   \<and> run_schedule (replicate 8 (JobReturned None)) [Acquire 5, Acquire 0, Acquire 7]
        (init_batch (nat (concurrency_limit 8 3)) 8)
      = Some (Running \<lparr>sem_value = 0, in_flight = [7, 0, 5], slots = replicate 8 None\<rparr>)
   \<and> int (length (in_flight \<lparr>sem_value = 0, in_flight = [7, 0, 5], slots = replicate 8 None\<rparr>))
        \<le> concurrency_limit 8 3
   \<and> run_schedule (replicate 8 (JobReturned None)) [Acquire 5, Acquire 0, Acquire 7, Acquire 1]
        (init_batch (nat (concurrency_limit 8 3)) 8) = None
   \<and> review_batch (example_opts\<lparr>max_concurrent_reviews := - 1\<rparr>)
        (replicate 8 (JobReturned None)) [] = SemaphoreValueError"
proof -
  let ?jobs = "replicate 8 (JobReturned None)"
  let ?b = "\<lparr>sem_value = 0, in_flight = [7, 0, 5], slots = replicate 8 None\<rparr>"
  have k: "concurrency_limit 8 3 = 3" "concurrency_limit 8 10 = 4" "concurrency_limit 3 10 = 3"
    by (simp_all add: concurrency_limit_def)
  have run: "run_schedule ?jobs [Acquire 5, Acquire 0, Acquire 7]
        (init_batch (nat (concurrency_limit (length ?jobs) 3)) (length ?jobs)) = Some (Running ?b)"
    by (simp add: k init_batch_def numeral_3_eq_3)
  have full: "run_schedule ?jobs [Acquire 5, Acquire 0, Acquire 7, Acquire 1]
        (init_batch (nat (concurrency_limit 8 3)) 8) = None"
    by (simp add: k init_batch_def numeral_3_eq_3)
  note T = concurrency_bound [where n = 8 and m = 10 and jobs = ?jobs and m' = 3
      and sched = "[Acquire 5, Acquire 0, Acquire 7]" and b = ?b
      and opts = "example_opts\<lparr>max_concurrent_reviews := - 1\<rparr>" and sched' = "[]"]
  have "int (length (in_flight ?b)) \<le> concurrency_limit (length ?jobs) 3"
    using T [THEN conjunct2, THEN conjunct2, THEN conjunct2, THEN conjunct1] run k
    by simp
  moreover have "concurrency_limit (length ?jobs)
      (max_concurrent_reviews (example_opts\<lparr>max_concurrent_reviews := - 1\<rparr>)) < 0"
    by (simp add: concurrency_limit_def)
  then have "review_batch (example_opts\<lparr>max_concurrent_reviews := - 1\<rparr>) ?jobs []
      = SemaphoreValueError"
    by (rule T [THEN conjunct2, THEN conjunct2, THEN conjunct2, THEN conjunct2, rule_format])
  moreover have "spec_limit 8 10 = 4" "spec_limit 8 3 = 3"
    by (simp_all add: spec_limit_def)
  ultimately show ?thesis using run full k by simp
qed

section \<open>Proofs: the test of line 333\<close>

text \<open>
  The second test of line 333 looks for \<open>"API key"\<close>, with capitals, in the lowercased
  message, and so never holds: only the first test recognises a configuration error.
\<close>

lemma lower_char_not_capital_A: "lower_char c \<noteq> CHR ''A''"
proof
  assume eq: "lower_char c = CHR ''A''"
  define n where "n = (of_char c :: nat)"
  have unfold: "lower_char c =
      (if (65 \<le> n \<and> n \<le> 90) \<or> (192 \<le> n \<and> n \<le> 222 \<and> n \<noteq> 215)
       then char_of (n + 32) else c)"
    by (simp add: lower_char_def n_def Let_def)
  show False
  proof (cases "(65 \<le> n \<and> n \<le> 90) \<or> (192 \<le> n \<and> n \<le> 222 \<and> n \<noteq> 215)")
    case True
    then have "lower_char c = char_of (n + 32)"
      by (simp only: unfold if_True)
    then have "(of_char (char_of (n + 32) :: char) :: nat) = of_char CHR ''A''"
      using eq by simp
    then have "(n + 32) mod 256 = 65" by simp
    moreover have "n + 32 < 256" using True by arith
    then have "(n + 32) mod 256 = n + 32" by (rule mod_less)
    ultimately show False using True by arith
  next
    case False
    then have "lower_char c = c" by (simp only: unfold if_False)
    then have "c = CHR ''A''" using eq by simp
    then have "n = 65" unfolding n_def by simp
    then show False using False by simp
  qed
qed

lemma api_key_test_never_holds: "\<not> sublist ''API key'' (lower msg)"
proof
  assume "sublist ''API key'' (lower msg)"
  then have "set ''API key'' \<subseteq> set (lower msg)" by (rule set_mono_sublist)
  then have "CHR ''A'' \<in> set (lower msg)" by simp
  then obtain c where "lower_char c = CHR ''A''" by (auto simp: lower_def)
  then show False using lower_char_not_capital_A by blast
qed

lemma is_api_key_error_iff: "is_api_key_error msg = sublist ''No API keys configured'' msg"
  by (simp add: is_api_key_error_def api_key_test_never_holds)

lemma invalid_key_is_no_configuration_error:
  "handle_exception (Exn RuntimeError ''Invalid API key'') = JobReturned None"
  by (simp add: handle_exception_def is_api_key_error_iff sublist_code)

end
